theory Spec2Isabelle
  imports Main "HOL-Library.Word"
begin

section \<open>The generic list store of GetHooks (list.c)\<close>

text \<open>
  list.c keeps a singly linked list of items behind a store that caches the head and the
  tail. Which item pointer an insertion returns, where head and tail point and in which
  order objects are released all matter, so the embedding keeps the pointers: objects
  live in a heap, and a pointer is an address or NULL (\<open>None\<close>).

  What the functions print (\<^verbatim>\<open>printf\<close>, \<^verbatim>\<open>MSG_WARNING\<close>, \<^verbatim>\<open>MSG_ERROR\<close>)
  changes neither the heap nor a returned value and is left out, and with it
  print_list_item and print_list_store, which only print.
\<close>

subsection \<open>Data model\<close>

text \<open>
  An \<^verbatim>\<open>int\<close> is 32 bits wide. list.c only copies ids, compares them for equality and
  tests them against zero, so the sign plays no role.
\<close>

type_synonym addr = nat
type_synonym c_int = "32 word"
type_synonym wchar = "16 word"
type_synonym wstring = "wchar list"

text \<open>
  Modelled from the spec: list.h is not part of the sources. The enumeration of list
  types is the one print_list_store switches over, in that order; a zeroed store reads
  as \<open>LIST_INVALID_TYPE\<close> (the kind that "hasn't been set"), which is what
  \<^verbatim>\<open>FAIL_IF( !store->type )\<close> tests.
\<close>

datatype list_type =
    LIST_INVALID_TYPE
  | LIST_INCLUDE_DESK
  | LIST_INCLUDE_HOOK
  | LIST_INCLUDE_PROG
  | LIST_EXCLUDE_HOOK
  | LIST_EXCLUDE_PROG

text \<open>
  Modelled from the spec: struct list_item of list.h, with the fields list.c uses
  (\<open>id\<close>, \<open>name\<close>, \<open>next\<close>). The name is a pointer to a wide string owned by the item.
\<close>

record list_item =
  item_id :: c_int
  item_name :: "addr option"
  item_next :: "addr option"

text \<open>
  Modelled from the spec: struct list (also called struct list_store) of list.h, with the
  fields list.c uses (\<open>type\<close>, \<open>init_time\<close>, \<open>head\<close>, \<open>tail\<close>).
\<close>

record list_store =
  store_type :: list_type
  init_time :: int
  head :: "addr option"
  tail :: "addr option"

text \<open>
  The heap is split by type: stores, items and wide strings. \<open>brk\<close> is the next address
  the allocator hands out, and \<open>freed\<close> logs every address passed to free(), in the
  order of the calls.
\<close>

record heap =
  lists :: "addr \<rightharpoonup> list_store"
  items :: "addr \<rightharpoonup> list_item"
  strs :: "addr \<rightharpoonup> wstring"
  brk :: addr
  freed :: "addr list"

text \<open>
  How a call can end without returning: \<open>Fatal\<close> is the termination of the process
  (\<^verbatim>\<open>FAIL_IF\<close> hit, or \<^verbatim>\<open>exit( 1 )\<close>); \<open>UB\<close> is a read, write or free through a
  pointer that does not point to a live object. A loop that never ends is the value
  \<open>None\<close> of the enclosing option.
\<close>

datatype failure = Fatal | UB

type_synonym 'a result = "(failure + 'a) option"

text \<open>
  The collaborators of util.h and of the hook directory, which the sources do not
  contain: the two lookups between hook names and hook ids, and the case mapping the C
  runtime applies in \<^verbatim>\<open>_wcsicmp\<close>.
\<close>

record env =
  hook_id_of_name :: "wstring \<Rightarrow> c_int option"
  hook_name_of_id :: "c_int \<Rightarrow> wstring option"
  towlower :: "wchar \<Rightarrow> wchar"

subsection \<open>Allocation and release\<close>

text \<open>
  Modelled from the spec: must_calloc of util.h ("allocateZeroed: terminates the process
  on failure; never returns a null result"). The model's memory is unbounded, so the
  allocation always succeeds: it returns the address \<open>brk\<close>, which it never handed out
  before, and the object there is zeroed.
\<close>

definition must_calloc_list :: "heap \<Rightarrow> addr \<times> heap" where
  "must_calloc_list h =
     (brk h,
      h\<lparr>lists := (lists h)(brk h \<mapsto>
           \<lparr>store_type = LIST_INVALID_TYPE, init_time = 0, head = None, tail = None\<rparr>),
        brk := Suc (brk h)\<rparr>)"

definition must_calloc_item :: "heap \<Rightarrow> addr \<times> heap" where
  "must_calloc_item h =
     (brk h,
      h\<lparr>items := (items h)(brk h \<mapsto> \<lparr>item_id = 0, item_name = None, item_next = None\<rparr>),
        brk := Suc (brk h)\<rparr>)"

text \<open>
  Modelled from the spec: must_wcsdup of util.h ("duplicateString: terminates the process
  on failure"), an owned copy of the string at a new address.
\<close>

definition must_wcsdup :: "heap \<Rightarrow> wstring \<Rightarrow> addr \<times> heap" where
  "must_wcsdup h s = (brk h, h\<lparr>strs := (strs h)(brk h \<mapsto> s), brk := Suc (brk h)\<rparr>)"

text \<open>
  free() of the C library, one function per type of object: \<^verbatim>\<open>free( NULL )\<close> does
  nothing, the release of a live object removes it and is logged, anything else is
  undefined behaviour.
\<close>

definition free_str :: "heap \<Rightarrow> addr option \<Rightarrow> failure + heap" where
  "free_str h p =
     (case p of
        None \<Rightarrow> Inr h
      | Some a \<Rightarrow>
          (case strs h a of
             None \<Rightarrow> Inl UB
           | Some _ \<Rightarrow> Inr (h\<lparr>strs := (strs h)(a := None), freed := freed h @ [a]\<rparr>)))"

definition free_item :: "heap \<Rightarrow> addr option \<Rightarrow> failure + heap" where
  "free_item h p =
     (case p of
        None \<Rightarrow> Inr h
      | Some a \<Rightarrow>
          (case items h a of
             None \<Rightarrow> Inl UB
           | Some _ \<Rightarrow> Inr (h\<lparr>items := (items h)(a := None), freed := freed h @ [a]\<rparr>)))"

definition free_list :: "heap \<Rightarrow> addr option \<Rightarrow> failure + heap" where
  "free_list h p =
     (case p of
        None \<Rightarrow> Inr h
      | Some a \<Rightarrow>
          (case lists h a of
             None \<Rightarrow> Inl UB
           | Some _ \<Rightarrow> Inr (h\<lparr>lists := (lists h)(a := None), freed := freed h @ [a]\<rparr>)))"

subsection \<open>The collaborators\<close>

text \<open>
  Modelled from the spec: get_hook_id_from_name ("resolveIdFromName(name) -> id,
  success"). \<open>None\<close> is the failure of the lookup.
\<close>

definition get_hook_id_from_name :: "env \<Rightarrow> wstring \<Rightarrow> c_int option" where
  "get_hook_id_from_name e nm = hook_id_of_name e nm"

text \<open>
  Modelled from the spec: get_hook_name_from_id ("resolveNameFromId(id) -> ownedName,
  success; on success transfers ownership of the returned name to the caller"). On
  success \<open>hookname\<close> points to a new copy of the name; on failure it stays NULL.
\<close>

definition get_hook_name_from_id :: "env \<Rightarrow> heap \<Rightarrow> c_int \<Rightarrow> addr option \<times> heap" where
  "get_hook_name_from_id e h i =
     (case hook_name_of_id e i of
        None \<Rightarrow> (None, h)
      | Some nm \<Rightarrow> (case must_wcsdup h nm of (p, h') \<Rightarrow> (Some p, h')))"

text \<open>
  \<^verbatim>\<open>_wcsicmp\<close> of the C runtime compares the lowercase versions of two strings and
  returns a negative number, zero or a positive number. A string is the list of its
  characters before the terminating NUL.
\<close>

fun wcsicmp :: "(wchar \<Rightarrow> wchar) \<Rightarrow> wstring \<Rightarrow> wstring \<Rightarrow> int" where
  "wcsicmp lw [] [] = 0"
| "wcsicmp lw [] (y # ys) = - 1"
| "wcsicmp lw (x # xs) [] = 1"
| "wcsicmp lw (x # xs) (y # ys) =
     (if lw x = lw y then wcsicmp lw xs ys else if lw x < lw y then - 1 else 1)"

subsection \<open>create_list_store\<close>

text \<open>
  \<open>out\<close> is a pointer to the caller's handle: \<open>None\<close> when \<open>out\<close> itself is NULL,
  \<open>Some p\<close> when the handle holds the pointer \<open>p\<close>. The function returns the new content
  of the handle.
\<close>

definition create_list_store :: "heap \<Rightarrow> addr option option \<Rightarrow> failure + (addr option \<times> heap)" where
  "create_list_store h out =
     (case out of
        None \<Rightarrow> Inl Fatal
      | Some (Some _) \<Rightarrow> Inl Fatal
      | Some None \<Rightarrow> (case must_calloc_list h of (s, h') \<Rightarrow> Inr (Some s, h')))"

subsection \<open>add_list_item\<close>

text \<open>
  The four scans of add_list_item are one loop,
  \<^verbatim>\<open>for( item = store->head; item; item = item->next )\<close>, around a test of the
  item; the loop stops at the first item that passes the test. The loop follows the
  next pointers of the heap, so it need not end: it is a partial function.
\<close>

partial_function (option) scan_items ::
  "(list_item \<Rightarrow> failure + bool) \<Rightarrow> (addr \<rightharpoonup> list_item) \<Rightarrow> addr option \<Rightarrow> addr option result"
where
  "scan_items test its p =
     (case p of
        None \<Rightarrow> Some (Inr None)
      | Some a \<Rightarrow>
          (case its a of
             None \<Rightarrow> Some (Inl UB)
           | Some it \<Rightarrow>
               (case test it of
                  Inl e \<Rightarrow> Some (Inl e)
                | Inr b \<Rightarrow> if b then Some (Inr (Some a)) else scan_items test its (item_next it))))"

text \<open>The tests of the scans: \<^verbatim>\<open>id == item->id\<close> for a hook list,\<close>

definition hook_id_test :: "c_int \<Rightarrow> list_item \<Rightarrow> failure + bool" where
  "hook_id_test i it = Inr (i = item_id it)"

text \<open>\<^verbatim>\<open>item->name && !_wcsicmp( item->name, name )\<close> for a program or desktop name,\<close>

definition name_test :: "env \<Rightarrow> heap \<Rightarrow> wstring \<Rightarrow> list_item \<Rightarrow> failure + bool" where
  "name_test e h nm it =
     (case item_name it of
        None \<Rightarrow> Inr False
      | Some p \<Rightarrow>
          (case strs h p of
             None \<Rightarrow> Inl UB
           | Some s \<Rightarrow> Inr (wcsicmp (towlower e) s nm = 0)))"

text \<open>and \<^verbatim>\<open>!item->name && id == item->id\<close> for a program id.\<close>

definition prog_id_test :: "c_int \<Rightarrow> list_item \<Rightarrow> failure + bool" where
  "prog_id_test i it = Inr (item_name it = None \<and> i = item_id it)"

text \<open>
  The block at the label \<open>new_item\<close>: allocate the item, give it the name (the resolved
  hook name, else a copy of the name passed in, else none) and the id, and append it
  behind the tail.
\<close>

definition new_item ::
  "heap \<Rightarrow> addr \<Rightarrow> c_int \<Rightarrow> wstring option \<Rightarrow> addr option \<Rightarrow> failure + (addr option \<times> heap)"
where
  "new_item h s i nm hookname =
     (case must_calloc_item h of (a, h1) \<Rightarrow>
      (case (case hookname of
               Some p \<Rightarrow> (Some p, h1)
             | None \<Rightarrow>
                 (case nm of
                    Some n \<Rightarrow> (case must_wcsdup h1 n of (p, h') \<Rightarrow> (Some p, h'))
                  | None \<Rightarrow> (None, h1))) of (np, h2) \<Rightarrow>
       (let h3 = h2\<lparr>items := (items h2)(a \<mapsto> \<lparr>item_id = i, item_name = np, item_next = None\<rparr>)\<rparr>
        in case lists h3 s of
             None \<Rightarrow> Inl UB
           | Some st \<Rightarrow>
               (case head st of
                  None \<Rightarrow>
                    Inr (Some a, h3\<lparr>lists := (lists h3)(s \<mapsto> st\<lparr>head := Some a, tail := Some a\<rparr>)\<rparr>)
                | Some _ \<Rightarrow>
                    (case tail st of
                       None \<Rightarrow> Inl UB
                     | Some t \<Rightarrow>
                         (case items h3 t of
                            None \<Rightarrow> Inl UB
                          | Some tit \<Rightarrow>
                              Inr (Some a,
                                   h3\<lparr>items := (items h3)(t \<mapsto> tit\<lparr>item_next := Some a\<rparr>),
                                      lists := (lists h3)(s \<mapsto> st\<lparr>tail := Some a\<rparr>)\<rparr>)))))))"

text \<open>The block at the label \<open>existing_item\<close>: release the resolved hook name, if any.\<close>

definition existing_item ::
  "heap \<Rightarrow> addr option \<Rightarrow> addr option \<Rightarrow> failure + (addr option \<times> heap)"
where
  "existing_item h hookname item =
     (case free_str h hookname of
        Inl e \<Rightarrow> Inl e
      | Inr h' \<Rightarrow> Inr (item, h'))"

text \<open>
  What follows each scan: \<^verbatim>\<open>goto existing_item\<close> from inside the loop when an
  item passed the test, \<^verbatim>\<open>goto new_item\<close> after the loop otherwise.
\<close>

definition after_scan ::
  "heap \<Rightarrow> addr \<Rightarrow> c_int \<Rightarrow> wstring option \<Rightarrow> addr option \<Rightarrow> addr option result
     \<Rightarrow> (addr option \<times> heap) result"
where
  "after_scan h s i nm hookname r =
     (case r of
        None \<Rightarrow> None
      | Some (Inl e) \<Rightarrow> Some (Inl e)
      | Some (Inr (Some a)) \<Rightarrow> Some (existing_item h hookname (Some a))
      | Some (Inr None) \<Rightarrow> Some (new_item h s i nm hookname))"

definition add_list_item ::
  "env \<Rightarrow> heap \<Rightarrow> addr option \<Rightarrow> c_int \<Rightarrow> wstring option \<Rightarrow> (addr option \<times> heap) result"
where
  "add_list_item e h store i nm =
     (case store of
        None \<Rightarrow> Some (Inl Fatal)
      | Some s \<Rightarrow>
          (case lists h s of
             None \<Rightarrow> Some (Inl UB)
           | Some st \<Rightarrow>
               if store_type st = LIST_INVALID_TYPE then Some (Inl Fatal)
               else if store_type st = LIST_INCLUDE_HOOK \<or> store_type st = LIST_EXCLUDE_HOOK then
                 (case nm of
                    Some n \<Rightarrow>
                      (case get_hook_id_from_name e n of
                         None \<Rightarrow> Some (existing_item h None None)
                       | Some i' \<Rightarrow>
                           after_scan h s i' nm None
                             (scan_items (hook_id_test i') (items h) (head st)))
                  | None \<Rightarrow>
                      (case get_hook_name_from_id e h i of (hookname, h1) \<Rightarrow>
                         after_scan h1 s i nm hookname
                           (scan_items (hook_id_test i) (items h1) (head st))))
               else if store_type st = LIST_INCLUDE_PROG \<or> store_type st = LIST_EXCLUDE_PROG then
                 (case nm of
                    Some n \<Rightarrow>
                      after_scan h s i nm None (scan_items (name_test e h n) (items h) (head st))
                  | None \<Rightarrow>
                      after_scan h s i nm None (scan_items (prog_id_test i) (items h) (head st)))
               else if store_type st = LIST_INCLUDE_DESK then
                 (case nm of
                    None \<Rightarrow> Some (Inl Fatal)
                  | Some n \<Rightarrow>
                      if i \<noteq> 0 then Some (Inl Fatal)
                      else
                        after_scan h s i nm None
                          (scan_items (name_test e h n) (items h) (head st)))
               else Some (Inl Fatal)))"

subsection \<open>free_list_store\<close>

text \<open>
  The loop of free_list_store,
  \<^verbatim>\<open>for( current = (*in)->head; current; current = p )\<close>: read the next pointer,
  release the name if there is one, release the item.
\<close>

partial_function (option) free_items :: "heap \<Rightarrow> addr option \<Rightarrow> heap result" where
  "free_items h current =
     (case current of
        None \<Rightarrow> Some (Inr h)
      | Some a \<Rightarrow>
          (case items h a of
             None \<Rightarrow> Some (Inl UB)
           | Some it \<Rightarrow>
               (case (case item_name it of None \<Rightarrow> Inr h | Some n \<Rightarrow> free_str h (Some n)) of
                  Inl e \<Rightarrow> Some (Inl e)
                | Inr h1 \<Rightarrow>
                    (case free_item h1 (Some a) of
                       Inl e \<Rightarrow> Some (Inl e)
                     | Inr h2 \<Rightarrow> free_items h2 (item_next it)))))"

text \<open>
  \<open>inp\<close> is the pointer to the caller's handle, as \<open>out\<close> is for create_list_store.
  The function returns what \<open>inp\<close> points to afterwards.
\<close>

definition free_list_store :: "heap \<Rightarrow> addr option option \<Rightarrow> (addr option option \<times> heap) result" where
  "free_list_store h inp =
     (case inp of
        None \<Rightarrow> Some (Inr (None, h))
      | Some None \<Rightarrow> Some (Inr (Some None, h))
      | Some (Some s) \<Rightarrow>
          (case lists h s of
             None \<Rightarrow> Some (Inl UB)
           | Some st \<Rightarrow>
               (case (case head st of None \<Rightarrow> Some (Inr h) | Some _ \<Rightarrow> free_items h (head st)) of
                  None \<Rightarrow> None
                | Some (Inl e) \<Rightarrow> Some (Inl e)
                | Some (Inr h1) \<Rightarrow>
                    (case free_list h1 (Some s) of
                       Inl e \<Rightarrow> Some (Inl e)
                     | Inr h2 \<Rightarrow> Some (Inr (Some None, h2))))))"

subsection \<open>Well-formed stores\<close>

text \<open>
  \<open>item_list its p as\<close>: following the next pointers from \<open>p\<close> visits exactly the
  addresses \<open>as\<close>, in this order, and then reaches NULL. It is the traversal order of
  the list.
\<close>

primrec item_list :: "(addr \<rightharpoonup> list_item) \<Rightarrow> addr option \<Rightarrow> addr list \<Rightarrow> bool" where
  "item_list its p [] \<longleftrightarrow> p = None"
| "item_list its p (a # as) \<longleftrightarrow>
     p = Some a \<and> (case its a of None \<Rightarrow> False | Some it \<Rightarrow> item_list its (item_next it) as)"

text \<open>The name pointers of the items at the addresses \<open>as\<close>.\<close>

definition name_ptrs :: "heap \<Rightarrow> addr list \<Rightarrow> addr list" where
  "name_ptrs h as =
     concat (map (\<lambda>a. case items h a of
                          None \<Rightarrow> []
                        | Some it \<Rightarrow> (case item_name it of None \<Rightarrow> [] | Some p \<Rightarrow> [p])) as)"

text \<open>
  The invariant of a store at address \<open>s\<close> whose items are \<open>as\<close>: head starts the
  list, tail is its last item (NULL when there is none), and every name is a live
  string that no other item points to.
\<close>

definition store_inv :: "heap \<Rightarrow> addr \<Rightarrow> addr list \<Rightarrow> bool" where
  "store_inv h s as \<longleftrightarrow>
     (case lists h s of
        None \<Rightarrow> False
      | Some st \<Rightarrow>
          item_list (items h) (head st) as \<and>
          tail st = (if as = [] then None else Some (last as))) \<and>
     distinct (name_ptrs h as) \<and>
     (\<forall>p \<in> set (name_ptrs h as). strs h p \<noteq> None)"

text \<open>The allocator's invariant: every live object is below \<open>brk\<close>.\<close>

definition heap_ok :: "heap \<Rightarrow> bool" where
  "heap_ok h \<longleftrightarrow>
     (\<forall>a. (lists h a \<noteq> None \<or> items h a \<noteq> None \<or> strs h a \<noteq> None) \<longrightarrow> a < brk h)"

definition hook_kind :: "list_type \<Rightarrow> bool" where
  "hook_kind t \<longleftrightarrow> t = LIST_INCLUDE_HOOK \<or> t = LIST_EXCLUDE_HOOK"

definition prog_kind :: "list_type \<Rightarrow> bool" where
  "prog_kind t \<longleftrightarrow> t = LIST_INCLUDE_PROG \<or> t = LIST_EXCLUDE_PROG"


text \<open>The name pointer that the block \<open>new_item\<close> stores in the item it creates.\<close>

definition new_name :: "heap \<Rightarrow> wstring option \<Rightarrow> addr option \<Rightarrow> addr option" where
  "new_name h nm hookname =
     (case hookname of
        Some p \<Rightarrow> Some p
      | None \<Rightarrow> (case nm of Some n \<Rightarrow> Some (Suc (brk h)) | None \<Rightarrow> None))"

text \<open>
  What the scans look for: an item with the id \<open>i\<close>; an item without a name and
  with the id \<open>i\<close>; an item whose name equals \<open>n\<close> up to letter case.
\<close>

definition has_id :: "heap \<Rightarrow> c_int \<Rightarrow> addr \<Rightarrow> bool" where
  "has_id h i a = (case items h a of None \<Rightarrow> False | Some it \<Rightarrow> i = item_id it)"

definition nameless_id :: "heap \<Rightarrow> c_int \<Rightarrow> addr \<Rightarrow> bool" where
  "nameless_id h i a =
     (case items h a of None \<Rightarrow> False | Some it \<Rightarrow> item_name it = None \<and> i = item_id it)"

definition has_name :: "env \<Rightarrow> heap \<Rightarrow> wstring \<Rightarrow> addr \<Rightarrow> bool" where
  "has_name e h n a =
     (case items h a of
        None \<Rightarrow> False
      | Some it \<Rightarrow>
          (case item_name it of
             None \<Rightarrow> False
           | Some p \<Rightarrow>
               (case strs h p of
                  None \<Rightarrow> False
                | Some n' \<Rightarrow> map (towlower e) n' = map (towlower e) n)))"

text \<open>
  The dedup policy in one notion. The key of a call is what the call identifies its
  entity by: the id (for a hook given by name, the id the name resolves to), or the
  name up to letter case for a program or desktop given by name; a call that
  add_list_item rejects has no key. The key of an item is what a scan compares: its id
  in a hook store; elsewhere its name up to letter case if it has a name, its id if it
  has none. An item is a duplicate of a call when the two keys are equal.
\<close>

datatype item_key = ById c_int | ByName wstring


definition key_at :: "env \<Rightarrow> heap \<Rightarrow> list_type \<Rightarrow> addr \<Rightarrow> item_key option" where
  "key_at e h t a =
     (case items h a of
        None \<Rightarrow> None
      | Some it \<Rightarrow>
          if hook_kind t then Some (ById (item_id it))
          else
            (case item_name it of
               None \<Rightarrow> Some (ById (item_id it))
             | Some p \<Rightarrow> map_option (\<lambda>n. ByName (map (towlower e) n)) (strs h p)))"

text \<open>
  What a successful insertion into a store with the items \<open>as\<close> leaves behind. When
  it returns a pointer \<open>r\<close> to an item that was not in the store, the store holds
  \<open>as\<close> followed by that item, the ids and names of the old items and all live
  strings are as before, and the only item objects written are the new one and the old
  tail. Otherwise stores, items and strings are unchanged.
\<close>

definition insertion_post :: "heap \<Rightarrow> addr \<Rightarrow> addr list \<Rightarrow> addr option \<Rightarrow> heap \<Rightarrow> bool" where
  "insertion_post h s as r h' \<longleftrightarrow>
     heap_ok h' \<and>
     (if r \<in> Some ` (- set as)
      then store_inv h' s (as @ [the r]) \<and>
           (\<forall>b\<in>set as. map_option item_id (items h' b) = map_option item_id (items h b)
                        \<and> map_option item_name (items h' b) = map_option item_name (items h b)) \<and>
           (\<forall>x. x \<noteq> the r \<and> (as = [] \<or> x \<noteq> last as) \<longrightarrow> items h' x = items h x) \<and>
           (\<forall>p. strs h p \<noteq> None \<longrightarrow> strs h' p = strs h p) \<and>
           map_option store_type (lists h' s) = map_option store_type (lists h s)
      else lists h' = lists h \<and> items h' = items h \<and> strs h' = strs h)"

text \<open>
  The order in which free_list_store releases the objects of the items \<open>as\<close>: for
  each item from head to tail, its name if it has one, then the item.
\<close>

definition release_order :: "heap \<Rightarrow> addr list \<Rightarrow> addr list" where
  "release_order h as =
     concat (map (\<lambda>a. (case items h a of
                           None \<Rightarrow> []
                         | Some it \<Rightarrow> (case item_name it of None \<Rightarrow> [] | Some p \<Rightarrow> [p])) @ [a]) as)"

subsection \<open>Items touched\<close>

text \<open>
  The cost of a piece of list.c is counted in item objects it reads or writes through a
  pointer (\<^verbatim>\<open>item->id\<close>, \<^verbatim>\<open>item->next\<close>, \<^verbatim>\<open>store->tail->next\<close>). The
  two definitions below are the scan loop and the block \<open>new_item\<close> once more, each
  returning next to its result the addresses of the items it touched, in order.
\<close>

partial_function (option) scan_items_touched ::
  "(list_item \<Rightarrow> failure + bool) \<Rightarrow> (addr \<rightharpoonup> list_item) \<Rightarrow> addr option \<Rightarrow> addr list
     \<Rightarrow> ((failure + addr option) \<times> addr list) option"
where
  "scan_items_touched test its p tr =
     (case p of
        None \<Rightarrow> Some (Inr None, tr)
      | Some a \<Rightarrow>
          (case its a of
             None \<Rightarrow> Some (Inl UB, tr)
           | Some it \<Rightarrow>
               (case test it of
                  Inl e \<Rightarrow> Some (Inl e, tr @ [a])
                | Inr b \<Rightarrow>
                    if b then Some (Inr (Some a), tr @ [a])
                    else scan_items_touched test its (item_next it) (tr @ [a]))))"


subsection \<open>Concrete inputs\<close>

text \<open>
  A wide string from an ASCII literal, the case mapping of the "C" locale, and a hook
  directory that knows one hook, \<open>WH_KEYBOARD\<close> with id 2.
\<close>

definition wstr :: "string \<Rightarrow> wstring" where
  "wstr s = map of_char s"

definition ascii_towlower :: "wchar \<Rightarrow> wchar" where
  "ascii_towlower c = (if 0x41 \<le> c \<and> c \<le> 0x5A then c + 0x20 else c)"

definition env0 :: env where
  "env0 =
     \<lparr>hook_id_of_name = (\<lambda>n. if n = wstr ''WH_KEYBOARD'' then Some 2 else None),
      hook_name_of_id = (\<lambda>i. if i = 2 then Some (wstr ''WH_KEYBOARD'') else None),
      towlower = ascii_towlower\<rparr>"

definition empty_heap :: heap where
  "empty_heap = \<lparr>lists = Map.empty, items = Map.empty, strs = Map.empty, brk = 0, freed = []\<rparr>"

text \<open>An empty store at address 0 whose kind the caller has set to \<open>t\<close>.\<close>

definition store_heap :: "list_type \<Rightarrow> heap" where
  "store_heap t =
     \<lparr>lists = [0 \<mapsto> \<lparr>store_type = t, init_time = 0, head = None, tail = None\<rparr>],
      items = Map.empty, strs = Map.empty, brk = 1, freed = []\<rparr>"

text \<open>A hook store that holds the hook 2, named \<open>WH_KEYBOARD\<close>.\<close>

definition hook_heap :: heap where
  "hook_heap =
     \<lparr>lists = [0 \<mapsto> \<lparr>store_type = LIST_INCLUDE_HOOK, init_time = 0,
                       head = Some 2, tail = Some 2\<rparr>],
      items = [2 \<mapsto> \<lparr>item_id = 2, item_name = Some 1, item_next = None\<rparr>],
      strs = [1 \<mapsto> wstr ''WH_KEYBOARD''], brk = 3, freed = []\<rparr>"

text \<open>
  A program store with two items: one inserted with the name \<open>Foo.exe\<close> and the id
  1234, and a nameless one with the id 77.
\<close>

definition prog_heap :: heap where
  "prog_heap =
     \<lparr>lists = [0 \<mapsto> \<lparr>store_type = LIST_EXCLUDE_PROG, init_time = 0,
                       head = Some 1, tail = Some 3\<rparr>],
      items = [1 \<mapsto> \<lparr>item_id = 1234, item_name = Some 2, item_next = Some 3\<rparr>,
               3 \<mapsto> \<lparr>item_id = 77, item_name = None, item_next = None\<rparr>],
      strs = [2 \<mapsto> wstr ''Foo.exe''], brk = 4, freed = []\<rparr>"




section \<open>Lists in the heap\<close>

lemma scan_items_None: "scan_items test its None = Some (Inr None)"
  by (subst scan_items.simps) simp

lemma scan_items_Some:
  "scan_items test its (Some a) =
     (case its a of
        None \<Rightarrow> Some (Inl UB)
      | Some it \<Rightarrow>
          (case test it of
             Inl e \<Rightarrow> Some (Inl e)
           | Inr b \<Rightarrow> if b then Some (Inr (Some a)) else scan_items test its (item_next it)))"
  by (subst scan_items.simps) simp

lemma free_items_None: "free_items h None = Some (Inr h)"
  by (subst free_items.simps) simp

lemma wcsicmp_zero_iff: "wcsicmp lw xs ys = 0 \<longleftrightarrow> map lw xs = map lw ys"
  by (induction lw xs ys rule: wcsicmp.induct) auto

lemma item_list_unique: "item_list its p as \<Longrightarrow> item_list its p bs \<Longrightarrow> as = bs"
proof (induction as arbitrary: p bs)
  case Nil
  then show ?case by (cases bs) auto
next
  case (Cons a as)
  then show ?case by (cases bs) (auto split: option.splits)
qed

lemma item_list_suffix:
  "item_list its p (as @ a # bs) \<Longrightarrow> \<exists>it. its a = Some it \<and> item_list its (item_next it) bs"
  by (induction as arbitrary: p) (auto split: option.splits)

lemma item_list_next_notin:
  assumes "its a = Some it" "item_list its (item_next it) as"
  shows "a \<notin> set as"
proof
  assume "a \<in> set as"
  then obtain bs cs where split: "as = bs @ a # cs"
    by (auto simp: in_set_conv_decomp)
  with assms(2) obtain it' where "its a = Some it'" "item_list its (item_next it') cs"
    using item_list_suffix by blast
  with assms have "item_list its (item_next it) cs" by simp
  with assms(2) have "as = cs" by (rule item_list_unique)
  with split show False by simp
qed

lemma item_list_distinct: "item_list its p as \<Longrightarrow> distinct as"
  by (induction as arbitrary: p) (auto split: option.splits dest: item_list_next_notin)

lemma item_list_live: "item_list its p as \<Longrightarrow> a \<in> set as \<Longrightarrow> its a \<noteq> None"
  by (induction as arbitrary: p) (auto split: option.splits)

lemma item_list_upd_notin:
  "a \<notin> set as \<Longrightarrow> item_list (its(a := v)) p as = item_list its p as"
  by (induction as arbitrary: p) (auto split: option.splits)

lemma item_list_snoc:
  assumes "item_list its p as" "as \<noteq> []" "a \<notin> set as"
    and "its (last as) = Some tit" "its a = Some n" "item_next n = None"
  shows "item_list (its(last as \<mapsto> tit\<lparr>item_next := Some a\<rparr>)) p (as @ [a])"
  using assms
proof (induction as arbitrary: p)
  case Nil
  then show ?case by simp
next
  case (Cons b bs)
  show ?case
  proof (cases "bs = []")
    case True
    with Cons.prems show ?thesis by (auto split: option.splits)
  next
    case False
    from Cons.prems(1) have d: "distinct (b # bs)" by (rule item_list_distinct)
    with False have "last bs \<noteq> b" by auto
    with Cons False show ?thesis by (auto split: option.splits)
  qed
qed

lemma scan_items_find:
  assumes "item_list its p as"
    and "\<forall>a\<in>set as. \<forall>it. its a = Some it \<longrightarrow> (\<exists>b. test it = Inr b)"
  shows "scan_items test its p =
           Some (Inr (find (\<lambda>a. \<exists>it. its a = Some it \<and> test it = Inr True) as))"
  using assms
proof (induction as arbitrary: p)
  case Nil
  then show ?case by (simp add: scan_items_None)
next
  case (Cons a as)
  from Cons.prems(1) obtain it where it: "p = Some a" "its a = Some it"
    "item_list its (item_next it) as"
    by (auto split: option.splits)
  from Cons.prems(2) it obtain b where b: "test it = Inr b" by auto
  from Cons.prems(2) have "\<forall>a\<in>set as. \<forall>it. its a = Some it \<longrightarrow> (\<exists>b. test it = Inr b)"
    by simp
  with Cons.IH it(3)
  have "scan_items test its (item_next it) =
          Some (Inr (find (\<lambda>a. \<exists>it. its a = Some it \<and> test it = Inr True) as))"
    by blast
  with it b show ?case by (simp add: scan_items_Some)
qed

lemma heap_ok_fresh:
  assumes "heap_ok h" "brk h \<le> a"
  shows "lists h a = None" "items h a = None" "strs h a = None"
  using assms unfolding heap_ok_def by (metis not_le)+

lemma name_ptrs_Nil: "name_ptrs h [] = []"
  by (simp add: name_ptrs_def)

lemma name_ptrs_append: "name_ptrs h (as @ bs) = name_ptrs h as @ name_ptrs h bs"
  by (simp add: name_ptrs_def)

lemma name_ptrs_Cons:
  "name_ptrs h (a # as) =
     (case items h a of
        None \<Rightarrow> []
      | Some it \<Rightarrow> (case item_name it of None \<Rightarrow> [] | Some p \<Rightarrow> [p])) @ name_ptrs h as"
  by (simp add: name_ptrs_def)

lemma name_ptrs_cong:
  "\<forall>a\<in>set as. map_option item_name (items h' a) = map_option item_name (items h a)
     \<Longrightarrow> name_ptrs h' as = name_ptrs h as"
proof (induction as)
  case Nil
  then show ?case by (simp add: name_ptrs_Nil)
next
  case (Cons a as)
  from Cons.prems have "map_option item_name (items h' a) = map_option item_name (items h a)"
    by simp
  then have "(case items h' a of None \<Rightarrow> []
               | Some it \<Rightarrow> (case item_name it of None \<Rightarrow> [] | Some p \<Rightarrow> [p])) =
             (case items h a of None \<Rightarrow> []
               | Some it \<Rightarrow> (case item_name it of None \<Rightarrow> [] | Some p \<Rightarrow> [p]))"
    by (cases "items h' a"; cases "items h a") auto
  with Cons show ?case by (simp add: name_ptrs_Cons)
qed

lemma name_ptrs_member:
  "p \<in> set (name_ptrs h as) \<longleftrightarrow>
     (\<exists>a\<in>set as. \<exists>it. items h a = Some it \<and> item_name it = Some p)"
proof (induction as)
  case Nil
  then show ?case by (simp add: name_ptrs_Nil)
next
  case (Cons a as)
  have "p \<in> set (case items h a of None \<Rightarrow> []
               | Some it \<Rightarrow> (case item_name it of None \<Rightarrow> [] | Some p \<Rightarrow> [p])) \<longleftrightarrow>
        (\<exists>it. items h a = Some it \<and> item_name it = Some p)"
    by (cases "items h a") (auto split: option.splits)
  with Cons show ?case by (simp add: name_ptrs_Cons)
qed

lemma item_list_nonempty_head: "item_list its p as \<Longrightarrow> as \<noteq> [] \<Longrightarrow> p = Some (hd as)"
  by (cases as) auto

lemma new_item_appends:
  assumes ok: "heap_ok h" and inv: "store_inv h s as"
    and hn: "\<forall>p. hookname = Some p \<longrightarrow> strs h p \<noteq> None \<and> p \<notin> set (name_ptrs h as)"
  shows "\<exists>h'. new_item h s i nm hookname = Inr (Some (brk h), h')
           \<and> heap_ok h' \<and> store_inv h' s (as @ [brk h]) \<and> brk h \<notin> set as
           \<and> items h' (brk h) =
               Some \<lparr>item_id = i, item_name = new_name h nm hookname, item_next = None\<rparr>
           \<and> (\<forall>n. hookname = None \<and> nm = Some n \<longrightarrow> strs h' (Suc (brk h)) = Some n)
           \<and> (\<forall>p. strs h p \<noteq> None \<longrightarrow> strs h' p = strs h p)
           \<and> (\<forall>a\<in>set as. map_option item_id (items h' a) = map_option item_id (items h a)
                 \<and> map_option item_name (items h' a) = map_option item_name (items h a))
           \<and> (\<forall>x. x \<noteq> brk h \<and> (as = [] \<or> x \<noteq> last as) \<longrightarrow> items h' x = items h x)
           \<and> map_option store_type (lists h' s) = map_option store_type (lists h s)
           \<and> freed h' = freed h"
proof -
  let ?a = "brk h"
  let ?np = "new_name h nm hookname"
  let ?new = "\<lparr>item_id = i, item_name = ?np, item_next = None\<rparr>"
  from inv obtain st where st: "lists h s = Some st"
    and il: "item_list (items h) (head st) as"
    and tl: "tail st = (if as = [] then None else Some (last as))"
    and dn: "distinct (name_ptrs h as)"
    and ln: "\<forall>p \<in> set (name_ptrs h as). strs h p \<noteq> None"
    by (auto simp: store_inv_def split: option.splits)
  have fresh: "items h ?a = None" "strs h ?a = None" "strs h (Suc ?a) = None"
    using heap_ok_fresh [OF ok] by simp_all
  have notin: "?a \<notin> set as"
    using item_list_live [OF il] fresh(1) by blast
  define strs' where "strs' = (if hookname = None \<and> nm \<noteq> None
                                then (strs h)(Suc ?a \<mapsto> the nm) else strs h)"
  define brk' where "brk' = (if hookname = None \<and> nm \<noteq> None then Suc (Suc ?a) else Suc ?a)"
  define its' where "its' = (if as = [] then (items h)(?a \<mapsto> ?new)
              else (items h)(?a \<mapsto> ?new, last as \<mapsto> (the (items h (last as)))\<lparr>item_next := Some ?a\<rparr>))"
  define st' where "st' = (if as = [] then st\<lparr>head := Some ?a, tail := Some ?a\<rparr>
                           else st\<lparr>tail := Some ?a\<rparr>)"
  define h' where "h' = h\<lparr>lists := (lists h)(s \<mapsto> st'), items := its', strs := strs',
                          brk := brk'\<rparr>"
  have last_live: "as \<noteq> [] \<Longrightarrow> \<exists>tit. items h (last as) = Some tit"
    using item_list_live [OF il, of "last as"] by auto
  have last_ne: "as \<noteq> [] \<Longrightarrow> last as \<noteq> ?a"
    using notin last_in_set by metis
  have run: "new_item h s i nm hookname = Inr (Some ?a, h')"
  proof (cases "as = []")
    case True
    with il have "head st = None" by simp
    with True st show ?thesis
      by (cases hookname; cases nm)
         (simp_all add: new_item_def must_calloc_item_def must_wcsdup_def new_name_def
            h'_def its'_def st'_def strs'_def brk'_def)
  next
    case False
    with il have hd: "head st = Some (hd as)" by (rule item_list_nonempty_head)
    from False tl have t: "tail st = Some (last as)" by simp
    from last_live [OF False] obtain tit where tit: "items h (last as) = Some tit" ..
    from False st hd t tit last_ne [OF False] show ?thesis
      by (cases hookname; cases nm)
         (simp_all add: new_item_def must_calloc_item_def must_wcsdup_def new_name_def
            h'_def its'_def st'_def strs'_def brk'_def)
  qed
  have its_a: "its' ?a = Some ?new"
    using last_ne by (auto simp: its'_def)
  have its_old: "\<forall>a\<in>set as. map_option item_id (its' a) = map_option item_id (items h a)
                 \<and> map_option item_name (its' a) = map_option item_name (items h a)"
    using notin last_live by (auto simp: its'_def)
  have strs_old: "\<forall>p. strs h p \<noteq> None \<longrightarrow> strs' p = strs h p"
    using fresh by (auto simp: strs'_def)
  have il': "item_list its' (head st') (as @ [?a])"
  proof (cases "as = []")
    case True
    then show ?thesis by (simp add: its'_def st'_def)
  next
    case False
    from last_live [OF False] obtain tit where tit: "items h (last as) = Some tit" ..
    have "item_list ((items h)(?a \<mapsto> ?new)) (head st) as"
      using il notin by (simp add: item_list_upd_notin)
    then have "item_list (((items h)(?a \<mapsto> ?new))(last as \<mapsto> tit\<lparr>item_next := Some ?a\<rparr>))
                 (head st) (as @ [?a])"
      using False notin tit last_ne [OF False]
      by (intro item_list_snoc [where n = ?new]) simp_all
    with False tit show ?thesis by (simp add: its'_def st'_def)
  qed
  have np_old: "name_ptrs h' as = name_ptrs h as"
    by (rule name_ptrs_cong) (use its_old in \<open>simp add: h'_def\<close>)
  have np_new: "name_ptrs h' [?a] = (case ?np of None \<Rightarrow> [] | Some p \<Rightarrow> [p])"
    using its_a by (simp add: name_ptrs_def h'_def)
  have np_fresh: "\<forall>p. ?np = Some p \<longrightarrow> p \<notin> set (name_ptrs h as) \<and> strs' p \<noteq> None"
    using hn ln fresh by (auto simp: new_name_def strs'_def split: option.splits)
  have h'_sel: "lists h' s = Some st'" "items h' = its'" "strs h' = strs'"
    by (simp_all add: h'_def)
  have tl': "tail st' = Some ?a"
    by (simp add: st'_def)
  have np_all: "name_ptrs h' (as @ [?a]) =
                  name_ptrs h as @ (case ?np of None \<Rightarrow> [] | Some p \<Rightarrow> [p])"
    by (simp add: name_ptrs_append np_old np_new)
  have d': "distinct (name_ptrs h' (as @ [?a]))"
    unfolding np_all using dn np_fresh by (cases ?np) auto
  have l': "\<forall>p \<in> set (name_ptrs h' (as @ [?a])). strs h' p \<noteq> None"
    unfolding np_all h'_sel using ln np_fresh strs_old by (cases ?np) auto
  have inv': "store_inv h' s (as @ [?a])"
    unfolding store_inv_def using il' tl' d' l' by (simp add: h'_sel)
  have old: "x < ?a" if "lists h x \<noteq> None \<or> items h x \<noteq> None \<or> strs h x \<noteq> None" for x
    using ok that unfolding heap_ok_def by blast
  have le: "?a < brk'"
    by (simp add: brk'_def)
  have ok_lists: "x < brk'" if "lists h' x \<noteq> None" for x
  proof -
    from that st have "lists h x \<noteq> None"
      by (cases "x = s") (simp_all add: h'_def)
    then have "x < ?a" using old by blast
    with le show ?thesis by simp
  qed
  have ok_items: "x < brk'" if "its' x \<noteq> None" for x
  proof (cases "x = ?a")
    case True
    with le show ?thesis by simp
  next
    case False
    with that last_live have "items h x \<noteq> None"
      by (cases "as = []"; cases "x = last as") (auto simp: its'_def)
    then have "x < ?a" using old by blast
    with le show ?thesis by simp
  qed
  have ok_strs: "x < brk'" if "strs' x \<noteq> None" for x
  proof (cases "strs h x")
    case None
    with that have "x = Suc ?a" "brk' = Suc (Suc ?a)"
      by (auto simp: strs'_def brk'_def split: if_splits)
    then show ?thesis by simp
  next
    case (Some y)
    then have "x < ?a" using old by simp
    with le show ?thesis by simp
  qed
  have ok': "heap_ok h'"
    unfolding heap_ok_def using ok_lists ok_items ok_strs
    by (auto simp: h'_sel(2,3) h'_def)
  have ty: "map_option store_type (lists h' s) = map_option store_type (lists h s)"
    by (simp add: h'_sel st st'_def)
  have fr: "freed h' = freed h"
    by (simp add: h'_def)
  have nm_new: "\<forall>n. hookname = None \<and> nm = Some n \<longrightarrow> strs h' (Suc ?a) = Some n"
    by (simp add: h'_sel strs'_def)
  have its_frame: "\<forall>x. x \<noteq> ?a \<and> (as = [] \<or> x \<noteq> last as) \<longrightarrow> its' x = items h x"
    by (auto simp: its'_def)
  from run ok' inv' notin its_a [folded h'_sel(2)] nm_new strs_old [folded h'_sel(3)]
    its_old [folded h'_sel(2)] its_frame [folded h'_sel(2)] ty fr
  show ?thesis by blast
qed


section \<open>add_list_item on a well-formed store\<close>

lemma store_inv_cong:
  "lists h' = lists h \<Longrightarrow> items h' = items h \<Longrightarrow> strs h' = strs h
     \<Longrightarrow> store_inv h' s as = store_inv h s as"
  by (simp add: store_inv_def name_ptrs_def cong: option.case_cong)

lemma store_invD:
  assumes "store_inv h s as"
  obtains st where "lists h s = Some st" "item_list (items h) (head st) as"
    "tail st = (if as = [] then None else Some (last as))"
    "distinct (name_ptrs h as)" "\<forall>p \<in> set (name_ptrs h as). strs h p \<noteq> None"
  using assms by (auto simp: store_inv_def split: option.splits)

lemma after_scan_find:
  assumes "item_list (items h) p as"
    and "\<forall>a\<in>set as. \<forall>it. items h a = Some it \<longrightarrow> (\<exists>b. test it = Inr b)"
  shows "after_scan h s i nm hookname (scan_items test (items h) p) =
           Some (case find (\<lambda>a. \<exists>it. items h a = Some it \<and> test it = Inr True) as of
                   Some a \<Rightarrow> existing_item h hookname (Some a)
                 | None \<Rightarrow> new_item h s i nm hookname)"
  by (simp add: scan_items_find [OF assms] after_scan_def split: option.splits)

lemma hook_id_test_find:
  "(\<lambda>a. \<exists>it. items h a = Some it \<and> hook_id_test i it = Inr True) = has_id h i"
  by (auto simp: fun_eq_iff hook_id_test_def has_id_def split: option.splits)

lemma prog_id_test_find:
  "(\<lambda>a. \<exists>it. items h a = Some it \<and> prog_id_test i it = Inr True) = nameless_id h i"
  by (auto simp: fun_eq_iff prog_id_test_def nameless_id_def split: option.splits)

lemma name_test_find:
  "(\<lambda>a. \<exists>it. items h a = Some it \<and> name_test e h n it = Inr True) = has_name e h n"
  by (auto simp: fun_eq_iff name_test_def has_name_def wcsicmp_zero_iff split: option.splits)

lemma name_test_total:
  assumes "\<forall>p \<in> set (name_ptrs h as). strs h p \<noteq> None"
  shows "\<forall>a\<in>set as. \<forall>it. items h a = Some it \<longrightarrow> (\<exists>b. name_test e h n it = Inr b)"
proof (intro ballI allI impI)
  fix a it
  assume a: "a \<in> set as" "items h a = Some it"
  show "\<exists>b. name_test e h n it = Inr b"
  proof (cases "item_name it")
    case None
    then show ?thesis by (auto simp: name_test_def)
  next
    case (Some p)
    with a have "p \<in> set (name_ptrs h as)" by (auto simp: name_ptrs_member)
    with assms obtain n' where "strs h p = Some n'" by auto
    with Some show ?thesis by (simp add: name_test_def)
  qed
qed

lemma existing_item_None: "existing_item h None r = Inr (r, h)"
  by (simp add: existing_item_def free_str_def)

lemma existing_item_Some:
  "strs h p = Some n \<Longrightarrow>
     existing_item h (Some p) r =
       Inr (r, h\<lparr>strs := (strs h)(p := None), freed := freed h @ [p]\<rparr>)"
  by (simp add: existing_item_def free_str_def)

text \<open>A call of add_list_item on a well-formed store, path by path.\<close>

lemma add_hook_by_name:
  assumes "store_inv h s as" "lists h s = Some st" "hook_kind (store_type st)"
    and "hook_id_of_name e n = Some i'"
  shows "add_list_item e h (Some s) i (Some n) =
           Some (case find (has_id h i') as of
                   Some a \<Rightarrow> Inr (Some a, h)
                 | None \<Rightarrow> new_item h s i' (Some n) None)"
proof -
  from assms(1,2) have il: "item_list (items h) (head st) as"
    by (auto elim: store_invD)
  have tot: "\<forall>a\<in>set as. \<forall>it. items h a = Some it \<longrightarrow> (\<exists>b. hook_id_test i' it = Inr b)"
    by (simp add: hook_id_test_def)
  from assms(2-4) show ?thesis
    by (auto simp: add_list_item_def hook_kind_def get_hook_id_from_name_def
        after_scan_find [OF il tot] hook_id_test_find existing_item_None split: option.splits)
qed

lemma add_prog_by_name:
  assumes "store_inv h s as" "lists h s = Some st" "prog_kind (store_type st)"
  shows "add_list_item e h (Some s) i (Some n) =
           Some (case find (has_name e h n) as of
                   Some a \<Rightarrow> Inr (Some a, h)
                 | None \<Rightarrow> new_item h s i (Some n) None)"
proof -
  from assms(1,2) have il: "item_list (items h) (head st) as"
    and live: "\<forall>p \<in> set (name_ptrs h as). strs h p \<noteq> None"
    by (auto elim: store_invD)
  note tot = name_test_total [OF live, of e n]
  from assms(2-3) show ?thesis
    by (auto simp: add_list_item_def prog_kind_def
        after_scan_find [OF il tot] name_test_find existing_item_None split: option.splits)
qed

lemma add_prog_by_id:
  assumes "store_inv h s as" "lists h s = Some st" "prog_kind (store_type st)"
  shows "add_list_item e h (Some s) i None =
           Some (case find (nameless_id h i) as of
                   Some a \<Rightarrow> Inr (Some a, h)
                 | None \<Rightarrow> new_item h s i None None)"
proof -
  from assms(1,2) have il: "item_list (items h) (head st) as"
    by (auto elim: store_invD)
  have tot: "\<forall>a\<in>set as. \<forall>it. items h a = Some it \<longrightarrow> (\<exists>b. prog_id_test i it = Inr b)"
    by (simp add: prog_id_test_def)
  from assms(2-3) show ?thesis
    by (auto simp: add_list_item_def prog_kind_def
        after_scan_find [OF il tot] prog_id_test_find existing_item_None split: option.splits)
qed

lemma add_desk:
  assumes "store_inv h s as" "lists h s = Some st" "store_type st = LIST_INCLUDE_DESK"
  shows "add_list_item e h (Some s) 0 (Some n) =
           Some (case find (has_name e h n) as of
                   Some a \<Rightarrow> Inr (Some a, h)
                 | None \<Rightarrow> new_item h s 0 (Some n) None)"
proof -
  from assms(1,2) have il: "item_list (items h) (head st) as"
    and live: "\<forall>p \<in> set (name_ptrs h as). strs h p \<noteq> None"
    by (auto elim: store_invD)
  note tot = name_test_total [OF live, of e n]
  from assms(2-3) show ?thesis
    by (auto simp: add_list_item_def
        after_scan_find [OF il tot] name_test_find existing_item_None split: option.splits)
qed


lemma get_hook_name_from_id_frame:
  assumes "get_hook_name_from_id e h i = (hn, h1)"
  shows "lists h1 = lists h" "items h1 = items h" "freed h1 = freed h"
    and "hn = map_option (\<lambda>_. brk h) (hook_name_of_id e i)"
    and "hook_name_of_id e i = None \<Longrightarrow> h1 = h"
    and "hook_name_of_id e i = Some n \<Longrightarrow> strs h1 = (strs h)(brk h \<mapsto> n) \<and> brk h1 = Suc (brk h)"
  using assms
  by (auto simp: get_hook_name_from_id_def must_wcsdup_def split: option.splits)

lemma get_hook_name_from_id_wf:
  assumes ok: "heap_ok h" and inv: "store_inv h s as"
    and g: "get_hook_name_from_id e h i = (hn, h1)"
  shows "heap_ok h1" "store_inv h1 s as"
    and "\<forall>p. hn = Some p \<longrightarrow> strs h1 p \<noteq> None \<and> p \<notin> set (name_ptrs h1 as)"
    and "\<forall>p. strs h p \<noteq> None \<longrightarrow> strs h1 p = strs h p"
proof -
  note fr = get_hook_name_from_id_frame [OF g]
  have fresh: "strs h (brk h) = None"
    using heap_ok_fresh [OF ok] by simp
  from inv obtain st where st: "lists h s = Some st"
    and il: "item_list (items h) (head st) as"
    and tl: "tail st = (if as = [] then None else Some (last as))"
    and dn: "distinct (name_ptrs h as)"
    and ln: "\<forall>p \<in> set (name_ptrs h as). strs h p \<noteq> None"
    by (rule store_invD)
  have np: "name_ptrs h1 as = name_ptrs h as"
    by (simp add: name_ptrs_def fr(2))
  show strs_old: "\<forall>p. strs h p \<noteq> None \<longrightarrow> strs h1 p = strs h p"
    using fr(5,6) fresh by (cases "hook_name_of_id e i") auto
  show "heap_ok h1"
  proof (cases "hook_name_of_id e i")
    case None
    with fr(5) ok show ?thesis by simp
  next
    case (Some n)
    with fr(6) have "strs h1 = (strs h)(brk h \<mapsto> n)" "brk h1 = Suc (brk h)" by simp_all
    with ok show ?thesis
      unfolding heap_ok_def fr(1,2) by (auto intro: less_SucI)
  qed
  show "store_inv h1 s as"
    unfolding store_inv_def np fr(1,2) using st il tl dn ln strs_old by auto
  show "\<forall>p. hn = Some p \<longrightarrow> strs h1 p \<noteq> None \<and> p \<notin> set (name_ptrs h1 as)"
    unfolding np using fr(4,6) ln fresh by (cases "hook_name_of_id e i") auto
qed

lemma existing_item_after_resolution:
  assumes ok: "heap_ok h" and g: "get_hook_name_from_id e h i = (hn, h1)"
  shows "\<exists>h2. existing_item h1 hn r = Inr (r, h2) \<and> lists h2 = lists h \<and> items h2 = items h
           \<and> strs h2 = strs h \<and> heap_ok h2
           \<and> freed h2 = freed h @ (case hn of None \<Rightarrow> [] | Some p \<Rightarrow> [p])"
proof (cases "hook_name_of_id e i")
  case None
  with get_hook_name_from_id_frame [OF g] ok show ?thesis
    by (simp add: existing_item_None)
next
  case (Some n)
  note fr = get_hook_name_from_id_frame [OF g]
  from Some fr have hn: "hn = Some (brk h)" and s1: "strs h1 = (strs h)(brk h \<mapsto> n)"
    and b1: "brk h1 = Suc (brk h)"
    by simp_all
  have fresh: "strs h (brk h) = None"
    using heap_ok_fresh [OF ok] by simp
  let ?h2 = "h1\<lparr>strs := (strs h1)(brk h := None), freed := freed h1 @ [brk h]\<rparr>"
  have run: "existing_item h1 hn r = Inr (r, ?h2)"
    unfolding hn by (rule existing_item_Some [where n = n]) (simp add: s1)
  have s2: "strs ?h2 = strs h"
    using fresh by (simp add: s1 fun_upd_idem)
  have "heap_ok ?h2"
    using ok unfolding heap_ok_def by (auto simp: s2 [simplified] fr(1,2) b1 intro: less_SucI)
  with run s2 fr(1-3) hn show ?thesis by simp
qed

lemma add_hook_by_id:
  assumes "store_inv h s as" "lists h s = Some st" "hook_kind (store_type st)"
    and g: "get_hook_name_from_id e h i = (hn, h1)"
  shows "add_list_item e h (Some s) i None =
           Some (case find (has_id h i) as of
                   Some a \<Rightarrow> existing_item h1 hn (Some a)
                 | None \<Rightarrow> new_item h1 s i None hn)"
proof -
  note fr = get_hook_name_from_id_frame [OF g]
  from assms(1,2) have il: "item_list (items h1) (head st) as"
    by (auto elim: store_invD simp: fr)
  have tot: "\<forall>a\<in>set as. \<forall>it. items h1 a = Some it \<longrightarrow> (\<exists>b. hook_id_test i it = Inr b)"
    by (simp add: hook_id_test_def)
  have eq: "has_id h1 i = has_id h i"
    by (simp add: has_id_def fun_eq_iff fr)
  from assms(2,3) show ?thesis
    by (auto simp: add_list_item_def hook_kind_def g after_scan_find [OF il tot]
        hook_id_test_find eq)
qed

lemma has_id_cong:
  "map_option item_id (items h' b) = map_option item_id (items h b)
     \<Longrightarrow> has_id h' i b = has_id h i b"
  by (cases "items h' b"; cases "items h b") (auto simp: has_id_def)

lemma find_append_last:
  "\<forall>b\<in>set as. \<not> P b \<Longrightarrow> P a \<Longrightarrow> find P (as @ [a]) = Some a"
  by (induction as) auto

lemma hook_by_id_existing:
  assumes ok: "heap_ok h" and inv: "store_inv h s as" and st: "lists h s = Some st"
    and kind: "hook_kind (store_type st)" and f: "find (has_id h i) as = Some a"
  shows "\<exists>h'. add_list_item e h (Some s) i None = Some (Inr (Some a, h'))
           \<and> lists h' = lists h \<and> items h' = items h \<and> strs h' = strs h \<and> heap_ok h'"
proof -
  obtain hn h1 where g: "get_hook_name_from_id e h i = (hn, h1)"
    by (cases "get_hook_name_from_id e h i")
  from existing_item_after_resolution [OF ok g, of "Some a"]
  obtain h2 where "existing_item h1 hn (Some a) = Inr (Some a, h2)" "lists h2 = lists h"
    "items h2 = items h" "strs h2 = strs h" "heap_ok h2"
    by blast
  then show ?thesis
    by (simp add: add_hook_by_id [OF inv st kind g] f)
qed

lemma hook_by_id_new:
  assumes ok: "heap_ok h" and inv: "store_inv h s as" and st: "lists h s = Some st"
    and kind: "hook_kind (store_type st)" and f: "find (has_id h i) as = None"
  shows "\<exists>a h'. add_list_item e h (Some s) i None = Some (Inr (Some a, h'))
           \<and> a \<notin> set as \<and> heap_ok h' \<and> store_inv h' s (as @ [a])
           \<and> items h' a =
               Some \<lparr>item_id = i, item_name = map_option (\<lambda>_. brk h) (hook_name_of_id e i),
                     item_next = None\<rparr>
           \<and> a = (case hook_name_of_id e i of None \<Rightarrow> brk h | Some _ \<Rightarrow> Suc (brk h))
           \<and> (\<forall>n. hook_name_of_id e i = Some n \<longrightarrow> strs h' (brk h) = Some n)
           \<and> (\<forall>b\<in>set as. map_option item_id (items h' b) = map_option item_id (items h b)
                 \<and> map_option item_name (items h' b) = map_option item_name (items h b))
           \<and> (\<forall>x. x \<noteq> a \<and> (as = [] \<or> x \<noteq> last as) \<longrightarrow> items h' x = items h x)
           \<and> (\<forall>p. strs h p \<noteq> None \<longrightarrow> strs h' p = strs h p)
           \<and> map_option store_type (lists h' s) = map_option store_type (lists h s)
           \<and> freed h' = freed h"
proof -
  obtain hn h1 where g: "get_hook_name_from_id e h i = (hn, h1)"
    by (cases "get_hook_name_from_id e h i")
  note fr = get_hook_name_from_id_frame [OF g]
  note wf = get_hook_name_from_id_wf [OF ok inv g]
  from new_item_appends [OF wf(1,2,3), of i None]
  obtain h' where n: "new_item h1 s i None hn = Inr (Some (brk h1), h')"
    and ok': "heap_ok h'" and inv': "store_inv h' s (as @ [brk h1])" and notin: "brk h1 \<notin> set as"
    and it: "items h' (brk h1) =
               Some \<lparr>item_id = i, item_name = new_name h1 None hn, item_next = None\<rparr>"
    and so: "\<forall>p. strs h1 p \<noteq> None \<longrightarrow> strs h' p = strs h1 p"
    and io: "\<forall>a\<in>set as. map_option item_id (items h' a) = map_option item_id (items h1 a)
                 \<and> map_option item_name (items h' a) = map_option item_name (items h1 a)"
    and ifr: "\<forall>x. x \<noteq> brk h1 \<and> (as = [] \<or> x \<noteq> last as) \<longrightarrow> items h' x = items h1 x"
    and ty: "map_option store_type (lists h' s) = map_option store_type (lists h1 s)"
    and fd: "freed h' = freed h1"
    by blast
  have run: "add_list_item e h (Some s) i None = Some (Inr (Some (brk h1), h'))"
    by (simp add: add_hook_by_id [OF inv st kind g] f n)
  have nn: "new_name h1 None hn = map_option (\<lambda>_. brk h) (hook_name_of_id e i)"
    by (simp add: new_name_def fr(4) split: option.splits)
  have b1: "brk h1 = (case hook_name_of_id e i of None \<Rightarrow> brk h | Some _ \<Rightarrow> Suc (brk h))"
    using fr(5,6) by (cases "hook_name_of_id e i") auto
  have sn: "\<forall>n. hook_name_of_id e i = Some n \<longrightarrow> strs h' (brk h) = Some n"
    using fr(6) so by auto
  have so': "\<forall>p. strs h p \<noteq> None \<longrightarrow> strs h' p = strs h p"
    using so wf(4) by auto
  from run notin ok' inv' it [unfolded nn] b1 sn io [unfolded fr] ifr [unfolded fr] so'
    ty [unfolded fr] fd [unfolded fr]
  show ?thesis by blast
qed

lemma store_type_kept:
  assumes "map_option store_type (lists h' s) = map_option store_type (lists h s)"
    and "lists h s = Some st"
  obtains st' where "lists h' s = Some st'" "store_type st' = store_type st"
  using assms by (cases "lists h' s") simp_all

lemma prog_by_id_result:
  assumes ok: "heap_ok h" and inv: "store_inv h s as" and st: "lists h s = Some st"
    and kind: "prog_kind (store_type st)"
  shows "\<exists>a h'. add_list_item e h (Some s) i None = Some (Inr (Some a, h'))
           \<and> nameless_id h' i a \<and> heap_ok h'
           \<and> (if \<exists>b\<in>set as. nameless_id h i b
               then a \<in> set as \<and> nameless_id h i a \<and> h' = h
               else a = brk h \<and> a \<notin> set as \<and> store_inv h' s (as @ [a]))"
proof (cases "find (nameless_id h i) as")
  case None
  then have no: "\<not> (\<exists>b\<in>set as. nameless_id h i b)"
    by (simp add: find_None_iff)
  have hn: "\<forall>p. (None :: addr option) = Some p \<longrightarrow> strs h p \<noteq> None \<and> p \<notin> set (name_ptrs h as)"
    by simp
  from new_item_appends [OF ok inv hn, of i None]
  obtain h' where n: "new_item h s i None None = Inr (Some (brk h), h')"
    and ok': "heap_ok h'" and inv': "store_inv h' s (as @ [brk h])" and notin: "brk h \<notin> set as"
    and it: "items h' (brk h) =
               Some \<lparr>item_id = i, item_name = new_name h None None, item_next = None\<rparr>"
    by blast
  have run: "add_list_item e h (Some s) i None = Some (Inr (Some (brk h), h'))"
    by (simp add: add_prog_by_id [OF inv st kind] None n)
  have "nameless_id h' i (brk h)"
    using it by (simp add: nameless_id_def new_name_def)
  with run ok' inv' notin no show ?thesis
    by simp
next
  case (Some a)
  then have a: "a \<in> set as" "nameless_id h i a"
    by (auto simp: find_Some_iff)
  have run: "add_list_item e h (Some s) i None = Some (Inr (Some a, h))"
    by (simp add: add_prog_by_id [OF inv st kind] Some)
  from a have "\<exists>b\<in>set as. nameless_id h i b" by blast
  with run a ok show ?thesis
    by simp
qed

lemma prog_by_name_new:
  assumes ok: "heap_ok h" and inv: "store_inv h s as" and st: "lists h s = Some st"
    and kind: "prog_kind (store_type st)"
    and no: "\<not> (\<exists>b\<in>set as. has_name e h n b)"
  shows "\<exists>h'. add_list_item e h (Some s) i (Some n) = Some (Inr (Some (brk h), h'))
           \<and> heap_ok h' \<and> store_inv h' s (as @ [brk h]) \<and> brk h \<notin> set as
           \<and> items h' (brk h) =
               Some \<lparr>item_id = i, item_name = Some (Suc (brk h)), item_next = None\<rparr>
           \<and> strs h' (Suc (brk h)) = Some n
           \<and> map_option store_type (lists h' s) = map_option store_type (lists h s)"
proof -
  from no have f: "find (has_name e h n) as = None"
    by (simp add: find_None_iff)
  have hn: "\<forall>p. (None :: addr option) = Some p \<longrightarrow> strs h p \<noteq> None \<and> p \<notin> set (name_ptrs h as)"
    by simp
  from new_item_appends [OF ok inv hn, of i "Some n"]
  obtain h' where n: "new_item h s i (Some n) None = Inr (Some (brk h), h')"
    and ok': "heap_ok h'" and inv': "store_inv h' s (as @ [brk h])" and notin: "brk h \<notin> set as"
    and it: "items h' (brk h) =
               Some \<lparr>item_id = i, item_name = new_name h (Some n) None, item_next = None\<rparr>"
    and sn: "\<forall>n'. (None :: addr option) = None \<and> Some n = Some n' \<longrightarrow> strs h' (Suc (brk h)) = Some n'"
    and ty: "map_option store_type (lists h' s) = map_option store_type (lists h s)"
    by blast
  have run: "add_list_item e h (Some s) i (Some n) = Some (Inr (Some (brk h), h'))"
    by (simp add: add_prog_by_name [OF inv st kind] f n)
  from it have it': "items h' (brk h) =
               Some \<lparr>item_id = i, item_name = Some (Suc (brk h)), item_next = None\<rparr>"
    by (simp add: new_name_def)
  from sn have "strs h' (Suc (brk h)) = Some n" by simp
  with run ok' inv' notin it' ty show ?thesis
    by simp
qed

lemma add_hook_unknown_name:
  assumes "lists h s = Some st" and "hook_kind (store_type st)"
    and "hook_id_of_name e n = None"
  shows "add_list_item e h (Some s) i (Some n) = Some (Inr (None, h))"
  using assms
  by (auto simp: add_list_item_def hook_kind_def get_hook_id_from_name_def
      existing_item_def free_str_def)

lemma insertion_post_same:
  "heap_ok h' \<Longrightarrow> lists h' = lists h \<Longrightarrow> items h' = items h \<Longrightarrow> strs h' = strs h
     \<Longrightarrow> r = None \<or> r \<in> Some ` set as \<Longrightarrow> insertion_post h s as r h'"
  by (auto simp: insertion_post_def)

lemma insertion_post_new:
  assumes "heap_ok h'" "a \<notin> set as" "store_inv h' s (as @ [a])"
    and "\<forall>b\<in>set as. map_option item_id (items h' b) = map_option item_id (items h b)
                  \<and> map_option item_name (items h' b) = map_option item_name (items h b)"
    and "\<forall>x. x \<noteq> a \<and> (as = [] \<or> x \<noteq> last as) \<longrightarrow> items h' x = items h x"
    and "\<forall>p. strs h p \<noteq> None \<longrightarrow> strs h' p = strs h p"
    and "map_option store_type (lists h' s) = map_option store_type (lists h s)"
  shows "insertion_post h s as (Some a) h'"
  unfolding insertion_post_def using assms by (simp add: image_iff)

lemma found_or_new_post:
  assumes ok: "heap_ok h" and inv: "store_inv h s as"
    and run: "(case find P as of Some a \<Rightarrow> Inr (Some a, h) | None \<Rightarrow> new_item h s i nm None)
                = Inr (r, h')"
  shows "insertion_post h s as r h'"
proof (cases "find P as")
  case (Some a)
  with run have "r = Some a" "h' = h" by simp_all
  moreover from Some have "a \<in> set as" by (auto simp: find_Some_iff)
  ultimately show ?thesis
    using ok by (intro insertion_post_same) simp_all
next
  case None
  have hn: "\<forall>p. (None :: addr option) = Some p \<longrightarrow> strs h p \<noteq> None \<and> p \<notin> set (name_ptrs h as)"
    by simp
  from new_item_appends [OF ok inv hn, of i nm]
  obtain h1 where n: "new_item h s i nm None = Inr (Some (brk h), h1)"
    and post: "heap_ok h1" "brk h \<notin> set as" "store_inv h1 s (as @ [brk h])"
      "\<forall>b\<in>set as. map_option item_id (items h1 b) = map_option item_id (items h b)
                  \<and> map_option item_name (items h1 b) = map_option item_name (items h b)"
      "\<forall>x. x \<noteq> brk h \<and> (as = [] \<or> x \<noteq> last as) \<longrightarrow> items h1 x = items h x"
      "\<forall>p. strs h p \<noteq> None \<longrightarrow> strs h1 p = strs h p"
      "map_option store_type (lists h1 s) = map_option store_type (lists h s)"
    by blast
  from run None n have "r = Some (brk h)" "h' = h1" by simp_all
  then show ?thesis
    using insertion_post_new [OF post] by simp
qed

lemma add_list_item_step:
  assumes ok: "heap_ok h" and inv: "store_inv h s as"
    and run: "add_list_item e h (Some s) i nm = Some (Inr (r, h'))"
  shows "insertion_post h s as r h'"
proof -
  from inv obtain st where st: "lists h s = Some st"
    by (rule store_invD)
  consider (hook) "hook_kind (store_type st)" | (prog) "prog_kind (store_type st)"
    | (desk) "store_type st = LIST_INCLUDE_DESK" | (invalid) "store_type st = LIST_INVALID_TYPE"
    by (cases "store_type st") (auto simp: hook_kind_def prog_kind_def)
  then show ?thesis
  proof cases
    case invalid
    with st run show ?thesis by (simp add: add_list_item_def)
  next
    case desk
    show ?thesis
    proof (cases nm)
      case None
      with desk st run show ?thesis by (simp add: add_list_item_def)
    next
      case (Some n)
      show ?thesis
      proof (cases "i = 0")
        case False
        with desk st run Some show ?thesis by (simp add: add_list_item_def)
      next
        case True
        from run show ?thesis
          unfolding Some True add_desk [OF inv st desk]
          by (intro found_or_new_post [OF ok inv]) simp
      qed
    qed
  next
    case prog
    show ?thesis
    proof (cases nm)
      case None
      from run show ?thesis
        unfolding None add_prog_by_id [OF inv st prog]
        by (intro found_or_new_post [OF ok inv]) simp
    next
      case (Some n)
      from run show ?thesis
        unfolding Some add_prog_by_name [OF inv st prog]
        by (intro found_or_new_post [OF ok inv]) simp
    qed
  next
    case hook
    show ?thesis
    proof (cases nm)
      case (Some n)
      show ?thesis
      proof (cases "hook_id_of_name e n")
        case None
        from run have "r = None" "h' = h"
          unfolding Some add_hook_unknown_name [OF st hook None] by simp_all
        with ok show ?thesis
          by (intro insertion_post_same) simp_all
      next
        case (Some i')
        from run show ?thesis
          unfolding \<open>nm = Some n\<close> add_hook_by_name [OF inv st hook Some]
          by (intro found_or_new_post [OF ok inv]) simp
      qed
    next
      case None
      show ?thesis
      proof (cases "find (has_id h i) as")
        case (Some a)
        from hook_by_id_existing [OF ok inv st hook Some, of e] run [unfolded None]
        have "r = Some a" "lists h' = lists h" "items h' = items h" "strs h' = strs h" "heap_ok h'"
          by auto
        moreover from Some have "a \<in> set as" by (auto simp: find_Some_iff)
        ultimately show ?thesis
          by (intro insertion_post_same) simp_all
      next
        case nf: None
        from hook_by_id_new [OF ok inv st hook nf, of e]
        obtain a h1 where "add_list_item e h (Some s) i None = Some (Inr (Some a, h1))"
          and post: "heap_ok h1" "a \<notin> set as" "store_inv h1 s (as @ [a])"
            "\<forall>b\<in>set as. map_option item_id (items h1 b) = map_option item_id (items h b)
                  \<and> map_option item_name (items h1 b) = map_option item_name (items h b)"
            "\<forall>x. x \<noteq> a \<and> (as = [] \<or> x \<noteq> last as) \<longrightarrow> items h1 x = items h x"
            "\<forall>p. strs h p \<noteq> None \<longrightarrow> strs h1 p = strs h p"
            "map_option store_type (lists h1 s) = map_option store_type (lists h s)"
          by blast
        with run [unfolded None] have "r = Some a" "h' = h1" by simp_all
        then show ?thesis
          using insertion_post_new [OF post] by simp
      qed
    qed
  qed
qed




section \<open>free_list_store on a well-formed store\<close>

lemma release_order_Nil: "release_order h [] = []"
  by (simp add: release_order_def)

lemma release_order_Cons:
  "release_order h (a # as) =
     (case items h a of
        None \<Rightarrow> []
      | Some it \<Rightarrow> (case item_name it of None \<Rightarrow> [] | Some p \<Rightarrow> [p])) @ a # release_order h as"
  by (simp add: release_order_def)

lemma release_order_cong:
  "\<forall>a\<in>set as. items h' a = items h a \<Longrightarrow> release_order h' as = release_order h as"
  by (induction as) (simp_all add: release_order_Nil release_order_Cons)

lemma free_items_Some:
  "free_items h (Some a) =
     (case items h a of
        None \<Rightarrow> Some (Inl UB)
      | Some it \<Rightarrow>
          (case (case item_name it of None \<Rightarrow> Inr h | Some n \<Rightarrow> free_str h (Some n)) of
             Inl e \<Rightarrow> Some (Inl e)
           | Inr h1 \<Rightarrow>
               (case free_item h1 (Some a) of
                  Inl e \<Rightarrow> Some (Inl e)
                | Inr h2 \<Rightarrow> free_items h2 (item_next it))))"
  by (subst free_items.simps) simp

lemma free_items_wf:
  assumes "item_list (items h) p as" and "distinct (name_ptrs h as)"
    and "\<forall>q\<in>set (name_ptrs h as). strs h q \<noteq> None"
  shows "\<exists>h'. free_items h p = Some (Inr h')
           \<and> freed h' = freed h @ release_order h as
           \<and> lists h' = lists h \<and> brk h' = brk h
           \<and> (\<forall>x. items h' x = (if x \<in> set as then None else items h x))
           \<and> (\<forall>x. strs h' x = (if x \<in> set (name_ptrs h as) then None else strs h x))"
  using assms
proof (induction as arbitrary: h p)
  case Nil
  then show ?case
    by (simp add: free_items_None release_order_Nil name_ptrs_Nil)
next
  case (Cons a bs)
  from Cons.prems(1) obtain it where p: "p = Some a" and it: "items h a = Some it"
    and il: "item_list (items h) (item_next it) bs"
    by (auto split: option.splits)
  have notin: "a \<notin> set bs"
    using it il by (rule item_list_next_notin)
  let ?np = "case item_name it of None \<Rightarrow> [] | Some q \<Rightarrow> [q]"
  have nps: "name_ptrs h (a # bs) = ?np @ name_ptrs h bs"
    by (simp add: name_ptrs_Cons it)
  define h1 where "h1 = (case item_name it of
                            None \<Rightarrow> h
                          | Some n \<Rightarrow> h\<lparr>strs := (strs h)(n := None), freed := freed h @ [n]\<rparr>)"
  define h2 where "h2 = h1\<lparr>items := (items h1)(a := None), freed := freed h1 @ [a]\<rparr>"
  have step1: "(case item_name it of None \<Rightarrow> Inr h | Some n \<Rightarrow> free_str h (Some n)) = Inr h1"
  proof (cases "item_name it")
    case None
    then show ?thesis by (simp add: h1_def)
  next
    case (Some n)
    with Cons.prems(3) nps obtain w where "strs h n = Some w" by auto
    with Some show ?thesis by (simp add: h1_def free_str_def)
  qed
  have items1: "items h1 = items h"
    by (simp add: h1_def split: option.splits)
  have step2: "free_item h1 (Some a) = Inr h2"
    by (simp add: free_item_def items1 it h2_def)
  have run: "free_items h p = free_items h2 (item_next it)"
    by (simp add: p free_items_Some it step1 step2)
  have items2: "items h2 = (items h)(a := None)"
    by (simp add: h2_def items1)
  have strs2: "\<forall>x. strs h2 x = (if x \<in> set ?np then None else strs h x)"
    by (simp add: h2_def h1_def split: option.splits)
  have freed2: "freed h2 = freed h @ ?np @ [a]"
    by (simp add: h2_def h1_def split: option.splits)
  have frame2: "lists h2 = lists h" "brk h2 = brk h"
    by (simp_all add: h2_def h1_def split: option.splits)
  have same_bs: "\<forall>b\<in>set bs. items h2 b = items h b"
    using notin by (auto simp: items2)
  have np2: "name_ptrs h2 bs = name_ptrs h bs"
    by (rule name_ptrs_cong) (simp add: same_bs)
  have ro2: "release_order h2 bs = release_order h bs"
    using same_bs by (rule release_order_cong)
  have il2: "item_list (items h2) (item_next it) bs"
    unfolding items2 using notin il by (simp add: item_list_upd_notin)
  have d2: "distinct (name_ptrs h2 bs)"
    using Cons.prems(2) by (simp add: np2 nps)
  have disj: "set ?np \<inter> set (name_ptrs h bs) = {}"
    using Cons.prems(2) by (simp add: nps)
  have l2: "\<forall>q\<in>set (name_ptrs h2 bs). strs h2 q \<noteq> None"
    unfolding np2 using Cons.prems(3) disj strs2 by (auto simp: nps)
  from Cons.IH [OF il2 d2 l2]
  obtain h' where r: "free_items h2 (item_next it) = Some (Inr h')"
    and f: "freed h' = freed h2 @ release_order h2 bs"
    and fr: "lists h' = lists h2" "brk h' = brk h2"
    and i': "\<forall>x. items h' x = (if x \<in> set bs then None else items h2 x)"
    and s': "\<forall>x. strs h' x = (if x \<in> set (name_ptrs h2 bs) then None else strs h2 x)"
    by (elim exE conjE, intro that)
  have "freed h' = freed h @ release_order h (a # bs)"
    by (simp add: f freed2 ro2 release_order_Cons it)
  moreover have "\<forall>x. items h' x = (if x \<in> set (a # bs) then None else items h x)"
    using i' by (simp add: items2)
  moreover have "\<forall>x. strs h' x = (if x \<in> set (name_ptrs h (a # bs)) then None else strs h x)"
    using s' strs2 by (simp add: np2 nps)
  ultimately show ?case
    using r run fr frame2 by (intro exI [of _ h'] conjI) simp_all
qed

section \<open>Keys, and the items touched\<close>



lemma has_name_key:
  "\<not> hook_kind t \<Longrightarrow>
     has_name e h n = (\<lambda>b. key_at e h t b = Some (ByName (map (towlower e) n)))"
  by (auto simp: fun_eq_iff has_name_def key_at_def split: option.splits)

lemma kind_disjoint:
  "prog_kind t \<Longrightarrow> \<not> hook_kind t" "t = LIST_INCLUDE_DESK \<Longrightarrow> \<not> hook_kind t"
  by (auto simp: prog_kind_def hook_kind_def)

lemma key_at_cong:
  assumes "map_option item_id (items h' b) = map_option item_id (items h b)"
    and "map_option item_name (items h' b) = map_option item_name (items h b)"
    and "\<forall>it p. items h b = Some it \<and> item_name it = Some p \<longrightarrow> strs h' p = strs h p"
  shows "key_at e h' t b = key_at e h t b"
proof (cases "items h b")
  case None
  with assms(1) have "items h' b = None" by simp
  with None show ?thesis by (simp add: key_at_def)
next
  case (Some it)
  with assms(1,2) obtain it' where it': "items h' b = Some it'" "item_id it' = item_id it"
    "item_name it' = item_name it"
    by (cases "items h' b") auto
  show ?thesis
  proof (cases "item_name it")
    case None
    with Some it' show ?thesis by (simp add: key_at_def)
  next
    case p: (Some p)
    with assms(3) Some have "strs h' p = strs h p" by simp
    with Some it' p show ?thesis by (simp add: key_at_def)
  qed
qed

lemma insertion_post_keys:
  assumes post: "insertion_post h s as r h'" and inv: "store_inv h s as"
  shows "\<forall>b\<in>set as. key_at e h' t b = key_at e h t b"
proof
  fix b
  assume b: "b \<in> set as"
  show "key_at e h' t b = key_at e h t b"
  proof (cases "r \<in> Some ` (- set as)")
    case False
    with post have "items h' = items h" "strs h' = strs h"
      by (simp_all add: insertion_post_def)
    then show ?thesis by (simp add: key_at_def cong: option.case_cong if_cong)
  next
    case True
    with post b have same: "map_option item_id (items h' b) = map_option item_id (items h b)"
      "map_option item_name (items h' b) = map_option item_name (items h b)"
      and so: "\<forall>p. strs h p \<noteq> None \<longrightarrow> strs h' p = strs h p"
      by (simp_all add: insertion_post_def)
    from inv have live: "\<forall>p \<in> set (name_ptrs h as). strs h p \<noteq> None"
      by (rule store_invD)
    have "\<forall>it p. items h b = Some it \<and> item_name it = Some p \<longrightarrow> strs h' p = strs h p"
    proof (intro allI impI)
      fix it p
      assume "items h b = Some it \<and> item_name it = Some p"
      with b have "p \<in> set (name_ptrs h as)"
        by (auto simp: name_ptrs_member)
      with live so show "strs h' p = strs h p" by simp
    qed
    with same show ?thesis by (rule key_at_cong)
  qed
qed









lemma scan_items_touched_None: "scan_items_touched test its None tr = Some (Inr None, tr)"
  by (subst scan_items_touched.simps) simp

lemma scan_items_touched_Some:
  "scan_items_touched test its (Some a) tr =
     (case its a of
        None \<Rightarrow> Some (Inl UB, tr)
      | Some it \<Rightarrow>
          (case test it of
             Inl e \<Rightarrow> Some (Inl e, tr @ [a])
           | Inr b \<Rightarrow>
               if b then Some (Inr (Some a), tr @ [a])
               else scan_items_touched test its (item_next it) (tr @ [a])))"
  by (subst scan_items_touched.simps) simp


lemma scan_items_touched_result:
  assumes "item_list its p as"
    and "\<forall>a\<in>set as. \<forall>it. its a = Some it \<longrightarrow> (\<exists>b. test it = Inr b)"
  shows "map_option fst (scan_items_touched test its p tr) = scan_items test its p"
  using assms
proof (induction as arbitrary: p tr)
  case Nil
  then show ?case by (simp add: scan_items_touched_None scan_items_None)
next
  case (Cons a as)
  then obtain it where it: "p = Some a" "its a = Some it" "item_list its (item_next it) as"
    by (auto split: option.splits)
  with Cons.prems obtain b where t: "test it = Inr b" by auto
  from Cons.prems have "\<forall>a\<in>set as. \<forall>it. its a = Some it \<longrightarrow> (\<exists>b. test it = Inr b)" by simp
  from Cons.IH [OF it(3) this, of "tr @ [a]"] it t show ?case
    by (simp add: scan_items_touched_Some scan_items_Some)
qed




lemma has_name_lower_cong:
  "map (towlower e) n' = map (towlower e) n \<Longrightarrow> has_name e h n' = has_name e h n"
  by (simp add: has_name_def fun_eq_iff cong: option.case_cong)

lemma has_name_not_nameless: "has_name e h n a \<Longrightarrow> \<not> nameless_id h i a"
  by (auto simp: has_name_def nameless_id_def split: option.splits)

lemma has_name_new:
  "items h a = Some \<lparr>item_id = i, item_name = Some p, item_next = nx\<rparr> \<Longrightarrow> strs h p = Some n
     \<Longrightarrow> has_name e h n a"
  by (simp add: has_name_def)

section \<open>Properties\<close>

subsection \<open>Failures of add_list_item\<close>

text \<open>
  C2. In a hook store, when a name is supplied and get_hook_id_from_name fails, the
  insertion returns NULL and leaves the whole heap as it was: nothing is appended, the
  store and every item are unchanged, and the process goes on (the call returns).
\<close>

theorem hook_name_resolution_failure:
  assumes "lists h s = Some st" and "hook_kind (store_type st)"
    and "hook_id_of_name e n = None"
  shows "add_list_item e h (Some s) i (Some n) = Some (Inr (None, h))"
  using assms
  by (auto simp: add_list_item_def hook_kind_def get_hook_id_from_name_def
      existing_item_def free_str_def)

theorem hook_name_resolution_failure_witness:
  "lists hook_heap 0 =
     Some \<lparr>store_type = LIST_INCLUDE_HOOK, init_time = 0, head = Some 2, tail = Some 2\<rparr>
   \<and> hook_kind LIST_INCLUDE_HOOK
   \<and> hook_id_of_name env0 (wstr ''WH_NOPE'') = None
   \<and> add_list_item env0 hook_heap (Some 0) 7 (Some (wstr ''WH_NOPE'')) =
       Some (Inr (None, hook_heap))"
proof -
  let ?st = "\<lparr>store_type = LIST_INCLUDE_HOOK, init_time = 0, head = Some 2, tail = Some 2\<rparr>"
  have a: "lists hook_heap 0 = Some ?st"
    by (simp add: hook_heap_def)
  have b: "hook_kind (store_type ?st)"
    by (simp add: hook_kind_def)
  have c: "hook_id_of_name env0 (wstr ''WH_NOPE'') = None"
    by (simp add: env0_def wstr_def)
  from hook_name_resolution_failure [OF a b c, of 7] a b c show ?thesis
    by simp
qed

text \<open>
  C6. In a desktop store the insertion needs a name and the id zero: a call with a
  nonzero id, with or without a name, and a call without a name both end the process.
\<close>

theorem desktop_requires_name_and_zero_id:
  assumes "lists h s = Some st" and "store_type st = LIST_INCLUDE_DESK"
    and "i \<noteq> 0 \<or> nm = None"
  shows "add_list_item e h (Some s) i nm = Some (Inl Fatal)"
  using assms by (auto simp: add_list_item_def split: option.splits)

theorem desktop_requires_name_and_zero_id_witness:
  "lists (store_heap LIST_INCLUDE_DESK) 0 =
     Some \<lparr>store_type = LIST_INCLUDE_DESK, init_time = 0, head = None, tail = None\<rparr>
   \<and> (5 :: c_int) \<noteq> 0
   \<and> add_list_item env0 (store_heap LIST_INCLUDE_DESK) (Some 0) 5 (Some (wstr ''Default'')) =
       Some (Inl Fatal)"
proof -
  let ?st = "\<lparr>store_type = LIST_INCLUDE_DESK, init_time = 0, head = None, tail = None\<rparr>"
  have a: "lists (store_heap LIST_INCLUDE_DESK) 0 = Some ?st"
    by (simp add: store_heap_def)
  have b: "store_type ?st = LIST_INCLUDE_DESK"
    by simp
  have c: "(5 :: c_int) \<noteq> 0 \<or> Some (wstr ''Default'') = None"
    by simp
  from desktop_requires_name_and_zero_id [OF a b c] a show ?thesis
    by simp
qed

subsection \<open>Hook stores\<close>

text \<open>
  C1. In a well-formed hook store, inserting the id \<open>i\<close> twice returns the same item
  pointer both times, and the second insertion changes no store, item or string. When
  an item with the id \<open>i\<close> was already in the store, the first insertion returns one
  of the existing items and appends nothing either; otherwise the first insertion
  appends one item. Starting from an empty store, the store holds exactly one item
  after both calls.
\<close>

theorem hook_same_id_twice:
  assumes ok: "heap_ok h" and inv: "store_inv h s as" and st: "lists h s = Some st"
    and kind: "hook_kind (store_type st)"
  shows "\<exists>a h1 h2.
           add_list_item e h (Some s) i None = Some (Inr (Some a, h1))
         \<and> add_list_item e h1 (Some s) i None = Some (Inr (Some a, h2))
         \<and> has_id h1 i a
         \<and> lists h2 = lists h1 \<and> items h2 = items h1 \<and> strs h2 = strs h1
         \<and> (if \<exists>b\<in>set as. has_id h i b
            then a \<in> set as \<and> lists h1 = lists h \<and> items h1 = items h \<and> strs h1 = strs h
                 \<and> store_inv h2 s as
            else a \<notin> set as \<and> store_inv h2 s (as @ [a]))"
proof (cases "find (has_id h i) as")
  case None
  then have no: "\<not> (\<exists>b\<in>set as. has_id h i b)"
    by (simp add: find_None_iff)
  from hook_by_id_new [OF ok inv st kind None, of e]
  obtain a h1 where run1: "add_list_item e h (Some s) i None = Some (Inr (Some a, h1))"
    and notin: "a \<notin> set as" and ok1: "heap_ok h1" and inv1: "store_inv h1 s (as @ [a])"
    and it: "items h1 a = Some \<lparr>item_id = i,
               item_name = map_option (\<lambda>_. brk h) (hook_name_of_id e i), item_next = None\<rparr>"
    and io: "\<forall>b\<in>set as. map_option item_id (items h1 b) = map_option item_id (items h b)
                 \<and> map_option item_name (items h1 b) = map_option item_name (items h b)"
    and ty: "map_option store_type (lists h1 s) = map_option store_type (lists h s)"
    by blast
  from ty st obtain st1 where st1: "lists h1 s = Some st1" and "store_type st1 = store_type st"
    by (cases "lists h1 s") simp_all
  with kind have kind1: "hook_kind (store_type st1)" by simp
  have a_id: "has_id h1 i a"
    using it by (simp add: has_id_def)
  have "\<forall>b\<in>set as. \<not> has_id h1 i b"
  proof
    fix b
    assume b: "b \<in> set as"
    with io have "map_option item_id (items h1 b) = map_option item_id (items h b)"
      by simp
    then have "has_id h1 i b = has_id h i b"
      by (rule has_id_cong)
    with no b show "\<not> has_id h1 i b"
      by simp
  qed
  then have f1: "find (has_id h1 i) (as @ [a]) = Some a"
    using a_id by (rule find_append_last)
  from hook_by_id_existing [OF ok1 inv1 st1 kind1 f1, of e]
  obtain h2 where run2: "add_list_item e h1 (Some s) i None = Some (Inr (Some a, h2))"
    and eq: "lists h2 = lists h1" "items h2 = items h1" "strs h2 = strs h1"
    by blast
  from inv1 have "store_inv h2 s (as @ [a])"
    by (simp only: store_inv_cong [OF eq])
  have "a \<notin> set as \<and> store_inv h2 s (as @ [a])"
    using notin \<open>store_inv h2 s (as @ [a])\<close> by simp
  with no have "if \<exists>b\<in>set as. has_id h i b
            then a \<in> set as \<and> lists h1 = lists h \<and> items h1 = items h \<and> strs h1 = strs h
                 \<and> store_inv h2 s as
            else a \<notin> set as \<and> store_inv h2 s (as @ [a])"
    by simp
  with run1 run2 a_id eq show ?thesis
    by (intro exI [of _ a] exI [of _ h1] exI [of _ h2] conjI)
next
  case (Some a)
  then have a: "a \<in> set as" "has_id h i a"
    by (auto simp: find_Some_iff)
  from hook_by_id_existing [OF ok inv st kind Some, of e]
  obtain h1 where run1: "add_list_item e h (Some s) i None = Some (Inr (Some a, h1))"
    and eq1: "lists h1 = lists h" "items h1 = items h" "strs h1 = strs h" and ok1: "heap_ok h1"
    by blast
  from inv have inv1: "store_inv h1 s as"
    by (simp only: store_inv_cong [OF eq1])
  from st eq1 have st1: "lists h1 s = Some st" by simp
  have "has_id h1 i = has_id h i"
    by (simp add: fun_eq_iff has_id_def eq1)
  with Some have f1: "find (has_id h1 i) as = Some a"
    by simp
  from hook_by_id_existing [OF ok1 inv1 st1 kind f1, of e]
  obtain h2 where run2: "add_list_item e h1 (Some s) i None = Some (Inr (Some a, h2))"
    and eq2: "lists h2 = lists h1" "items h2 = items h1" "strs h2 = strs h1"
    by blast
  from inv1 have "store_inv h2 s as"
    by (simp only: store_inv_cong [OF eq2])
  then have "a \<in> set as \<and> lists h1 = lists h \<and> items h1 = items h \<and> strs h1 = strs h
                 \<and> store_inv h2 s as"
    using a eq1 by simp
  moreover have yes: "\<exists>b\<in>set as. has_id h i b"
    using a by blast
  ultimately have "if \<exists>b\<in>set as. has_id h i b
            then a \<in> set as \<and> lists h1 = lists h \<and> items h1 = items h \<and> strs h1 = strs h
                 \<and> store_inv h2 s as
            else a \<notin> set as \<and> store_inv h2 s (as @ [a])"
    by simp
  moreover have "has_id h1 i a"
    using a eq1 by (simp add: has_id_def)
  ultimately show ?thesis
    using run1 run2 eq2
    by (intro exI [of _ a] exI [of _ h1] exI [of _ h2] conjI)
qed

theorem hook_same_id_twice_witness:
  "heap_ok (store_heap LIST_INCLUDE_HOOK)
   \<and> store_inv (store_heap LIST_INCLUDE_HOOK) 0 []
   \<and> lists (store_heap LIST_INCLUDE_HOOK) 0 =
       Some \<lparr>store_type = LIST_INCLUDE_HOOK, init_time = 0, head = None, tail = None\<rparr>
   \<and> hook_kind LIST_INCLUDE_HOOK
   \<and> add_list_item env0 (store_heap LIST_INCLUDE_HOOK) (Some 0) 2 None =
       Some (Inr (Some 2, hook_heap))
   \<and> add_list_item env0 hook_heap (Some 0) 2 None =
       Some (Inr (Some 2, hook_heap\<lparr>brk := 4, freed := [3]\<rparr>))
   \<and> store_inv (hook_heap\<lparr>brk := 4, freed := [3]\<rparr>) 0 [2]"
proof -
  let ?h = "store_heap LIST_INCLUDE_HOOK"
  let ?st = "\<lparr>store_type = LIST_INCLUDE_HOOK, init_time = 0, head = None, tail = None\<rparr>"
  note run_defs = add_list_item_def after_scan_def scan_items_None scan_items_Some
    hook_id_test_def new_item_def must_calloc_item_def existing_item_def free_str_def
    get_hook_name_from_id_def must_wcsdup_def env0_def
  have a: "heap_ok ?h"
    by (simp add: heap_ok_def store_heap_def)
  have b: "store_inv ?h 0 []"
    by (simp add: store_inv_def store_heap_def name_ptrs_def)
  have c: "lists ?h 0 = Some ?st"
    by (simp add: store_heap_def)
  have d: "hook_kind (store_type ?st)"
    by (simp add: hook_kind_def)
  have run1: "add_list_item env0 ?h (Some 0) 2 None = Some (Inr (Some 2, hook_heap))"
    by (simp add: run_defs store_heap_def hook_heap_def fun_eq_iff)
  have run2: "add_list_item env0 hook_heap (Some 0) 2 None =
                Some (Inr (Some 2, hook_heap\<lparr>brk := 4, freed := [3]\<rparr>))"
    by (simp add: run_defs hook_heap_def fun_eq_iff)
  from hook_same_id_twice [OF a b c d, of env0 2]
  obtain x h1 h2 where "add_list_item env0 ?h (Some 0) 2 None = Some (Inr (Some x, h1))"
    "add_list_item env0 h1 (Some 0) 2 None = Some (Inr (Some x, h2))"
    "store_inv h2 0 [x]"
    by auto
  with run1 run2 have "store_inv (hook_heap\<lparr>brk := 4, freed := [3]\<rparr>) 0 [2]"
    by simp
  with a b c d run1 run2 show ?thesis
    by simp
qed

text \<open>
  C3. In a well-formed hook store, when no name is supplied, get_hook_name_from_id fails
  and no item has the id \<open>i\<close>, the insertion succeeds: it returns a pointer to a new
  item that carries the id \<open>i\<close> and no name, appended behind the items of the store.
\<close>

theorem hook_id_without_name_still_inserted:
  assumes "heap_ok h" and "store_inv h s as" and "lists h s = Some st"
    and "hook_kind (store_type st)"
    and "hook_name_of_id e i = None"
    and "\<forall>a\<in>set as. \<not> has_id h i a"
  shows "\<exists>h'. add_list_item e h (Some s) i None = Some (Inr (Some (brk h), h'))
           \<and> items h' (brk h) = Some \<lparr>item_id = i, item_name = None, item_next = None\<rparr>
           \<and> brk h \<notin> set as \<and> store_inv h' s (as @ [brk h])"
proof -
  from assms(6) have f: "find (has_id h i) as = None"
    by (simp add: find_None_iff)
  from hook_by_id_new [OF assms(1-4) f, of e]
  obtain a h' where "add_list_item e h (Some s) i None = Some (Inr (Some a, h'))"
    "a \<notin> set as" "store_inv h' s (as @ [a])"
    "items h' a = Some \<lparr>item_id = i,
       item_name = map_option (\<lambda>_. brk h) (hook_name_of_id e i), item_next = None\<rparr>"
    "a = (case hook_name_of_id e i of None \<Rightarrow> brk h | Some _ \<Rightarrow> Suc (brk h))"
    by blast
  with assms(5) show ?thesis
    by simp
qed

theorem hook_id_without_name_still_inserted_witness:
  "heap_ok hook_heap \<and> store_inv hook_heap 0 [2]
   \<and> lists hook_heap 0 =
       Some \<lparr>store_type = LIST_INCLUDE_HOOK, init_time = 0, head = Some 2, tail = Some 2\<rparr>
   \<and> hook_kind LIST_INCLUDE_HOOK
   \<and> hook_name_of_id env0 7 = None
   \<and> \<not> has_id hook_heap 7 2
   \<and> (\<exists>h'. add_list_item env0 hook_heap (Some 0) 7 None = Some (Inr (Some 3, h'))
         \<and> items h' 3 = Some \<lparr>item_id = 7, item_name = None, item_next = None\<rparr>
         \<and> store_inv h' 0 [2, 3])"
proof -
  let ?st = "\<lparr>store_type = LIST_INCLUDE_HOOK, init_time = 0, head = Some 2, tail = Some 2\<rparr>"
  have a: "heap_ok hook_heap"
    by (auto simp: heap_ok_def hook_heap_def split: if_splits)
  have b: "store_inv hook_heap 0 [2]"
    by (simp add: store_inv_def hook_heap_def name_ptrs_def)
  have c: "lists hook_heap 0 = Some ?st"
    by (simp add: hook_heap_def)
  have d: "hook_kind (store_type ?st)"
    by (simp add: hook_kind_def)
  have f: "hook_name_of_id env0 7 = None"
    by (simp add: env0_def)
  have g: "\<not> has_id hook_heap 7 2"
    by (simp add: has_id_def hook_heap_def)
  then have g': "\<forall>a\<in>set [2]. \<not> has_id hook_heap 7 a"
    by simp
  have k: "brk hook_heap = 3"
    by (simp add: hook_heap_def)
  from hook_id_without_name_still_inserted [OF a b c d f g'] a b c d f g k show ?thesis
    by simp
qed

subsection \<open>Program stores\<close>

text \<open>
  C4. In a well-formed program store, inserting by name when some item has a name equal
  to the supplied one up to letter case returns an existing item with such a name and
  leaves the heap as it was: no item is appended.
\<close>

theorem prog_name_dedup_case_insensitive:
  assumes "store_inv h s as" and "lists h s = Some st" and "prog_kind (store_type st)"
    and "\<exists>b\<in>set as. has_name e h n b"
  shows "\<exists>a. add_list_item e h (Some s) i (Some n) = Some (Inr (Some a, h))
           \<and> a \<in> set as \<and> has_name e h n a"
proof -
  from assms(4) obtain a where f: "find (has_name e h n) as = Some a"
    by (cases "find (has_name e h n) as") (auto simp: find_None_iff)
  then have "a \<in> set as" "has_name e h n a"
    by (auto simp: find_Some_iff)
  moreover have "add_list_item e h (Some s) i (Some n) = Some (Inr (Some a, h))"
    by (simp add: add_prog_by_name [OF assms(1-3)] f)
  ultimately show ?thesis by blast
qed

theorem prog_name_dedup_case_insensitive_witness:
  "store_inv prog_heap 0 [1, 3]
   \<and> lists prog_heap 0 =
       Some \<lparr>store_type = LIST_EXCLUDE_PROG, init_time = 0, head = Some 1, tail = Some 3\<rparr>
   \<and> prog_kind LIST_EXCLUDE_PROG
   \<and> has_name env0 prog_heap (wstr ''foo.exe'') 1
   \<and> strs prog_heap 2 = Some (wstr ''Foo.exe'')
   \<and> add_list_item env0 prog_heap (Some 0) 0 (Some (wstr ''foo.exe'')) =
       Some (Inr (Some 1, prog_heap))"
proof -
  let ?st = "\<lparr>store_type = LIST_EXCLUDE_PROG, init_time = 0, head = Some 1, tail = Some 3\<rparr>"
  let ?n = "wstr ''foo.exe''"
  have a: "store_inv prog_heap 0 [1, 3]"
    by (simp add: store_inv_def prog_heap_def name_ptrs_def)
  have b: "lists prog_heap 0 = Some ?st"
    by (simp add: prog_heap_def)
  have c: "prog_kind (store_type ?st)"
    by (simp add: prog_kind_def)
  have d: "has_name env0 prog_heap ?n 1"
    by (simp add: has_name_def prog_heap_def env0_def wstr_def ascii_towlower_def)
  have d3: "\<not> has_name env0 prog_heap ?n 3"
    by (simp add: has_name_def prog_heap_def)
  from d have d': "\<exists>b\<in>set [1, 3]. has_name env0 prog_heap ?n b"
    by simp
  have s: "strs prog_heap 2 = Some (wstr ''Foo.exe'')"
    by (simp add: prog_heap_def)
  from prog_name_dedup_case_insensitive [OF a b c d', of 0]
  obtain x where "add_list_item env0 prog_heap (Some 0) 0 (Some ?n) = Some (Inr (Some x, prog_heap))"
    "x \<in> set [1, 3]" "has_name env0 prog_heap ?n x"
    by blast
  with d3 have "add_list_item env0 prog_heap (Some 0) 0 (Some ?n) = Some (Inr (Some 1, prog_heap))"
    by auto
  with a b c d s show ?thesis
    by simp
qed

text \<open>
  C5. In a well-formed program store, inserting by id without a name returns an item
  that has no name and has the id \<open>i\<close>. It is an existing item exactly when the
  store holds a nameless item with the id \<open>i\<close>; an item that has a name is never
  returned, even when its id is \<open>i\<close>, and the insertion then appends a new nameless
  item with the id \<open>i\<close>.
\<close>

theorem prog_id_matches_only_nameless:
  assumes "heap_ok h" and "store_inv h s as" and "lists h s = Some st"
    and "prog_kind (store_type st)"
  shows "\<exists>a h'. add_list_item e h (Some s) i None = Some (Inr (Some a, h'))
           \<and> nameless_id h' i a
           \<and> (\<forall>b\<in>set as. has_id h i b \<and> \<not> nameless_id h i b \<longrightarrow> a \<noteq> b)
           \<and> (if \<exists>b\<in>set as. nameless_id h i b
               then a \<in> set as \<and> nameless_id h i a \<and> h' = h
               else a = brk h \<and> a \<notin> set as \<and> store_inv h' s (as @ [a]))"
proof -
  from prog_by_id_result [OF assms, of e i]
  obtain a h' where run: "add_list_item e h (Some s) i None = Some (Inr (Some a, h'))"
    and nl: "nameless_id h' i a"
    and c: "if \<exists>b\<in>set as. nameless_id h i b
               then a \<in> set as \<and> nameless_id h i a \<and> h' = h
               else a = brk h \<and> a \<notin> set as \<and> store_inv h' s (as @ [a])"
    by blast
  have "\<forall>b\<in>set as. has_id h i b \<and> \<not> nameless_id h i b \<longrightarrow> a \<noteq> b"
    using c by (auto split: if_splits)
  with run nl c show ?thesis
    by (intro exI [of _ a] exI [of _ h'] conjI)
qed

theorem prog_id_matches_only_nameless_witness:
  "heap_ok prog_heap \<and> store_inv prog_heap 0 [1, 3]
   \<and> lists prog_heap 0 =
       Some \<lparr>store_type = LIST_EXCLUDE_PROG, init_time = 0, head = Some 1, tail = Some 3\<rparr>
   \<and> prog_kind LIST_EXCLUDE_PROG
   \<and> has_id prog_heap 1234 1 \<and> \<not> nameless_id prog_heap 1234 1
   \<and> (\<exists>h'. add_list_item env0 prog_heap (Some 0) 1234 None = Some (Inr (Some 4, h'))
         \<and> nameless_id h' 1234 4 \<and> store_inv h' 0 [1, 3, 4])"
proof -
  let ?st = "\<lparr>store_type = LIST_EXCLUDE_PROG, init_time = 0, head = Some 1, tail = Some 3\<rparr>"
  have ok: "heap_ok prog_heap"
    by (auto simp: heap_ok_def prog_heap_def split: if_splits)
  have a: "store_inv prog_heap 0 [1, 3]"
    by (simp add: store_inv_def prog_heap_def name_ptrs_def)
  have b: "lists prog_heap 0 = Some ?st"
    by (simp add: prog_heap_def)
  have c: "prog_kind (store_type ?st)"
    by (simp add: prog_kind_def)
  have d: "has_id prog_heap 1234 1" "\<not> nameless_id prog_heap 1234 1"
    "\<not> nameless_id prog_heap 1234 3"
    by (simp_all add: has_id_def nameless_id_def prog_heap_def)
  then have no: "\<not> (\<exists>b\<in>set [1, 3]. nameless_id prog_heap 1234 b)"
    by simp
  have k: "brk prog_heap = 4"
    by (simp add: prog_heap_def)
  from prog_id_matches_only_nameless [OF ok a b c, of env0 1234]
  obtain x h' where "add_list_item env0 prog_heap (Some 0) 1234 None = Some (Inr (Some x, h'))"
    "nameless_id h' 1234 x"
    "if \<exists>b\<in>set [1, 3]. nameless_id prog_heap 1234 b
     then x \<in> set [1, 3] \<and> nameless_id prog_heap 1234 x \<and> h' = prog_heap
     else x = brk prog_heap \<and> x \<notin> set [1, 3] \<and> store_inv h' 0 ([1, 3] @ [x])"
    by blast
  with no k have "\<exists>h'. add_list_item env0 prog_heap (Some 0) 1234 None = Some (Inr (Some 4, h'))
         \<and> nameless_id h' 1234 4 \<and> store_inv h' 0 [1, 3, 4]"
    by auto
  with ok a b c d show ?thesis
    by simp
qed

text \<open>
  C10. In a well-formed program store, a call with both a name and an id (zero or not)
  does not fail: it returns an item whose name equals the supplied name up to letter
  case. Only the name decides which: if some item has such a name, the first of them is
  returned and the heap is left as it was, whatever the ids; otherwise a new item is
  appended that stores the supplied id and an owned copy of the name. On the resulting
  store a call with the same name up to letter case and any id \<open>j\<close> returns that
  same item and changes nothing. The stored id is not consulted by a later insertion of
  the id \<open>i\<close> without a name: that call returns another item, a nameless one.
\<close>

theorem prog_name_and_id_together:
  assumes ok: "heap_ok h" and inv: "store_inv h s as" and st: "lists h s = Some st"
    and kind: "prog_kind (store_type st)"
  shows "\<exists>a h1. add_list_item e h (Some s) i (Some n) = Some (Inr (Some a, h1))
           \<and> has_name e h1 n a
           \<and> (if \<exists>b\<in>set as. has_name e h n b
               then find (has_name e h n) as = Some a \<and> h1 = h
               else a = brk h \<and> a \<notin> set as
                    \<and> items h1 a =
                        Some \<lparr>item_id = i, item_name = Some (Suc (brk h)), item_next = None\<rparr>
                    \<and> strs h1 (Suc (brk h)) = Some n
                    \<and> store_inv h1 s (as @ [a]))
           \<and> (map (towlower e) n' = map (towlower e) n \<longrightarrow>
                add_list_item e h1 (Some s) j (Some n') = Some (Inr (Some a, h1)))
           \<and> (\<exists>c h3. add_list_item e h1 (Some s) i None = Some (Inr (Some c, h3))
                 \<and> c \<noteq> a \<and> nameless_id h3 i c)"
proof (cases "\<exists>b\<in>set as. has_name e h n b")
  case True
  then obtain a where f: "find (has_name e h n) as = Some a"
    by (cases "find (has_name e h n) as") (auto simp: find_None_iff)
  then have a: "a \<in> set as" "has_name e h n a"
    by (auto simp: find_Some_iff)
  have run: "add_list_item e h (Some s) i (Some n) = Some (Inr (Some a, h))"
    by (simp add: add_prog_by_name [OF inv st kind] f)
  have again: "map (towlower e) n' = map (towlower e) n \<longrightarrow>
                add_list_item e h (Some s) j (Some n') = Some (Inr (Some a, h))"
  proof
    assume eq: "map (towlower e) n' = map (towlower e) n"
    show "add_list_item e h (Some s) j (Some n') = Some (Inr (Some a, h))"
      by (simp add: add_prog_by_name [OF inv st kind] has_name_lower_cong [OF eq] f)
  qed
  from prog_by_id_result [OF ok inv st kind, of e i]
  obtain c h3 where run3: "add_list_item e h (Some s) i None = Some (Inr (Some c, h3))"
    and nl: "nameless_id h3 i c"
    and cc: "if \<exists>b\<in>set as. nameless_id h i b
               then c \<in> set as \<and> nameless_id h i c \<and> h3 = h
               else c = brk h \<and> c \<notin> set as \<and> store_inv h3 s (as @ [c])"
    by (elim exE conjE, intro that)
  have "c \<noteq> a"
    using cc a has_name_not_nameless [OF a(2), of i] by (auto split: if_splits)
  with run3 nl have later: "\<exists>c h3. add_list_item e h (Some s) i None = Some (Inr (Some c, h3))
                 \<and> c \<noteq> a \<and> nameless_id h3 i c"
    by (intro exI [of _ c] exI [of _ h3] conjI)
  from True f have br: "if \<exists>b\<in>set as. has_name e h n b
               then find (has_name e h n) as = Some a \<and> h = h
               else a = brk h \<and> a \<notin> set as
                    \<and> items h a =
                        Some \<lparr>item_id = i, item_name = Some (Suc (brk h)), item_next = None\<rparr>
                    \<and> strs h (Suc (brk h)) = Some n
                    \<and> store_inv h s (as @ [a])"
    by simp
  from run a(2) br again later
  have "add_list_item e h (Some s) i (Some n) = Some (Inr (Some a, h))
           \<and> has_name e h n a
           \<and> (if \<exists>b\<in>set as. has_name e h n b
               then find (has_name e h n) as = Some a \<and> h = h
               else a = brk h \<and> a \<notin> set as
                    \<and> items h a =
                        Some \<lparr>item_id = i, item_name = Some (Suc (brk h)), item_next = None\<rparr>
                    \<and> strs h (Suc (brk h)) = Some n
                    \<and> store_inv h s (as @ [a]))
           \<and> (map (towlower e) n' = map (towlower e) n \<longrightarrow>
                add_list_item e h (Some s) j (Some n') = Some (Inr (Some a, h)))
           \<and> (\<exists>c h3. add_list_item e h (Some s) i None = Some (Inr (Some c, h3))
                 \<and> c \<noteq> a \<and> nameless_id h3 i c)"
    by (intro conjI)
  then show ?thesis
    by (intro exI [of _ a] exI [of _ h])
next
  case False
  let ?a = "brk h"
  from prog_by_name_new [OF ok inv st kind False, of i]
  obtain h1 where run: "add_list_item e h (Some s) i (Some n) = Some (Inr (Some ?a, h1))"
    and ok1: "heap_ok h1" and inv1: "store_inv h1 s (as @ [?a])" and notin: "?a \<notin> set as"
    and it: "items h1 ?a = Some \<lparr>item_id = i, item_name = Some (Suc ?a), item_next = None\<rparr>"
    and sn: "strs h1 (Suc ?a) = Some n"
    and ty: "map_option store_type (lists h1 s) = map_option store_type (lists h s)"
    by (elim exE conjE, intro that)
  from ty st obtain st1 where st1: "lists h1 s = Some st1"
    and t1: "store_type st1 = store_type st"
    by (rule store_type_kept)
  from kind t1 have kind1: "prog_kind (store_type st1)" by simp
  note nh = kind_disjoint(1) [OF kind]
  have named: "has_name e h1 n ?a"
    using it sn by (rule has_name_new)
  note post = add_list_item_step [OF ok inv run]
  note keys = insertion_post_keys [OF post inv, of e "store_type st"]
  have old: "\<forall>b\<in>set as. \<not> has_name e h1 n b"
    using False keys
    by (simp add: has_name_key [OF nh, of e h n] has_name_key [OF nh, of e h1 n])
  have again: "map (towlower e) n' = map (towlower e) n \<longrightarrow>
                add_list_item e h1 (Some s) j (Some n') = Some (Inr (Some ?a, h1))"
  proof
    assume eq: "map (towlower e) n' = map (towlower e) n"
    from old named have "find (has_name e h1 n) (as @ [?a]) = Some ?a"
      by (rule find_append_last)
    then show "add_list_item e h1 (Some s) j (Some n') = Some (Inr (Some ?a, h1))"
      by (simp add: add_prog_by_name [OF inv1 st1 kind1] has_name_lower_cong [OF eq])
  qed
  from prog_by_id_result [OF ok1 inv1 st1 kind1, of e i]
  obtain c h3 where run3: "add_list_item e h1 (Some s) i None = Some (Inr (Some c, h3))"
    and nl: "nameless_id h3 i c"
    and cc: "if \<exists>b\<in>set (as @ [?a]). nameless_id h1 i b
               then c \<in> set (as @ [?a]) \<and> nameless_id h1 i c \<and> h3 = h1
               else c = brk h1 \<and> c \<notin> set (as @ [?a]) \<and> store_inv h3 s ((as @ [?a]) @ [c])"
    by (elim exE conjE, intro that)
  have "c \<noteq> ?a"
    using cc has_name_not_nameless [OF named, of i] by (auto split: if_splits)
  with run3 nl have later: "\<exists>c h3. add_list_item e h1 (Some s) i None = Some (Inr (Some c, h3))
                 \<and> c \<noteq> ?a \<and> nameless_id h3 i c"
    by (intro exI [of _ c] exI [of _ h3] conjI)
  from False notin it sn inv1 have br: "if \<exists>b\<in>set as. has_name e h n b
               then find (has_name e h n) as = Some ?a \<and> h1 = h
               else ?a = brk h \<and> ?a \<notin> set as
                    \<and> items h1 ?a =
                        Some \<lparr>item_id = i, item_name = Some (Suc (brk h)), item_next = None\<rparr>
                    \<and> strs h1 (Suc (brk h)) = Some n
                    \<and> store_inv h1 s (as @ [?a])"
    by simp
  from run named br again later
  have "add_list_item e h (Some s) i (Some n) = Some (Inr (Some (brk h), h1))
           \<and> has_name e h1 n (brk h)
           \<and> (if \<exists>b\<in>set as. has_name e h n b
               then find (has_name e h n) as = Some (brk h) \<and> h1 = h
               else (brk h) = brk h \<and> (brk h) \<notin> set as
                    \<and> items h1 (brk h) =
                        Some \<lparr>item_id = i, item_name = Some (Suc (brk h)), item_next = None\<rparr>
                    \<and> strs h1 (Suc (brk h)) = Some n
                    \<and> store_inv h1 s (as @ [(brk h)]))
           \<and> (map (towlower e) n' = map (towlower e) n \<longrightarrow>
                add_list_item e h1 (Some s) j (Some n') = Some (Inr (Some (brk h), h1)))
           \<and> (\<exists>c h3. add_list_item e h1 (Some s) i None = Some (Inr (Some c, h3))
                 \<and> c \<noteq> (brk h) \<and> nameless_id h3 i c)"
    by (intro conjI)
  then show ?thesis
    by (intro exI [of _ "brk h"] exI [of _ h1])
qed

theorem prog_name_and_id_together_witness:
  "heap_ok prog_heap \<and> store_inv prog_heap 0 [1, 3]
   \<and> lists prog_heap 0 =
       Some \<lparr>store_type = LIST_EXCLUDE_PROG, init_time = 0, head = Some 1, tail = Some 3\<rparr>
   \<and> prog_kind LIST_EXCLUDE_PROG
   \<and> map (towlower env0) (wstr ''BAR.EXE'') = map (towlower env0) (wstr ''bar.exe'')
   \<and> add_list_item env0 prog_heap (Some 0) 5 (Some (wstr ''foo.exe'')) =
       Some (Inr (Some 1, prog_heap))
   \<and> (\<exists>h1. add_list_item env0 prog_heap (Some 0) 77 (Some (wstr ''bar.exe'')) =
              Some (Inr (Some 4, h1))
         \<and> items h1 4 = Some \<lparr>item_id = 77, item_name = Some 5, item_next = None\<rparr>
         \<and> strs h1 5 = Some (wstr ''bar.exe'')
         \<and> store_inv h1 0 [1, 3, 4]
         \<and> add_list_item env0 h1 (Some 0) 0 (Some (wstr ''BAR.EXE'')) = Some (Inr (Some 4, h1))
         \<and> (\<exists>c h3. add_list_item env0 h1 (Some 0) 77 None = Some (Inr (Some c, h3))
               \<and> c \<noteq> 4 \<and> nameless_id h3 77 c))"
proof -
  let ?st = "\<lparr>store_type = LIST_EXCLUDE_PROG, init_time = 0, head = Some 1, tail = Some 3\<rparr>"
  have ok: "heap_ok prog_heap"
    by (auto simp: heap_ok_def prog_heap_def split: if_splits)
  have a: "store_inv prog_heap 0 [1, 3]"
    by (simp add: store_inv_def prog_heap_def name_ptrs_def)
  have b: "lists prog_heap 0 = Some ?st"
    by (simp add: prog_heap_def)
  have c: "prog_kind (store_type ?st)"
    by (simp add: prog_kind_def)
  have lw: "map (towlower env0) (wstr ''BAR.EXE'') = map (towlower env0) (wstr ''bar.exe'')"
    by (simp add: env0_def wstr_def ascii_towlower_def)
  have foo: "has_name env0 prog_heap (wstr ''foo.exe'') 1"
    by (simp add: has_name_def prog_heap_def env0_def wstr_def ascii_towlower_def)
  have bar: "\<not> has_name env0 prog_heap (wstr ''bar.exe'') 1"
    "\<not> has_name env0 prog_heap (wstr ''bar.exe'') 3"
    by (simp_all add: has_name_def prog_heap_def env0_def wstr_def ascii_towlower_def)
  have k: "brk prog_heap = 4"
    by (simp add: prog_heap_def)
  from prog_name_and_id_together [OF ok a b c, of env0 5 "wstr ''foo.exe''"] foo
  have first: "add_list_item env0 prog_heap (Some 0) 5 (Some (wstr ''foo.exe'')) =
       Some (Inr (Some 1, prog_heap))"
    by auto
  from prog_name_and_id_together [OF ok a b c, of env0 77 "wstr ''bar.exe''"
      "wstr ''BAR.EXE''" 0] bar lw
  have second: "\<exists>h1. add_list_item env0 prog_heap (Some 0) 77 (Some (wstr ''bar.exe'')) =
              Some (Inr (Some 4, h1))
         \<and> items h1 4 = Some \<lparr>item_id = 77, item_name = Some 5, item_next = None\<rparr>
         \<and> strs h1 5 = Some (wstr ''bar.exe'')
         \<and> store_inv h1 0 [1, 3, 4]
         \<and> add_list_item env0 h1 (Some 0) 0 (Some (wstr ''BAR.EXE'')) = Some (Inr (Some 4, h1))
         \<and> (\<exists>c h3. add_list_item env0 h1 (Some 0) 77 None = Some (Inr (Some c, h3))
               \<and> c \<noteq> 4 \<and> nameless_id h3 77 c)"
    by (auto simp: k)
  from ok a b c lw first second show ?thesis
    by (intro conjI) simp_all
qed

subsection \<open>Invariants and order\<close>



subsection \<open>create_list_store\<close>

text \<open>
  C7, as the code has it. create_list_store takes no kind. On a handle that holds NULL it
  allocates a zeroed store: no head, no tail, and the kind unset
  (\<open>LIST_INVALID_TYPE\<close>). The caller sets the kind afterwards; until then every
  insertion into the store ends the process.
\<close>

theorem create_list_store_unset_kind:
  "\<exists>h'. create_list_store h (Some None) = Inr (Some (brk h), h')
      \<and> lists h' (brk h) =
          Some \<lparr>store_type = LIST_INVALID_TYPE, init_time = 0, head = None, tail = None\<rparr>
      \<and> items h' = items h
      \<and> add_list_item e h' (Some (brk h)) i nm = Some (Inl Fatal)"
  by (simp add: create_list_store_def must_calloc_list_def add_list_item_def)

text \<open>
  The store created on the empty heap has the kind \<open>LIST_INVALID_TYPE\<close>, which is not
  a kind a caller can ask for, such as \<open>LIST_INCLUDE_HOOK\<close>.
\<close>

theorem create_list_store_kind_counterexample:
  "fst (projr (create_list_store empty_heap (Some None))) = Some 0
   \<and> map_option store_type (lists (snd (projr (create_list_store empty_heap (Some None)))) 0) =
       Some LIST_INVALID_TYPE
   \<and> map_option store_type (lists (snd (projr (create_list_store empty_heap (Some None)))) 0) \<noteq>
       Some LIST_INCLUDE_HOOK"
  by (simp add: create_list_store_def must_calloc_list_def empty_heap_def)

subsection \<open>free_list_store\<close>

text \<open>
  C9. Destroying a well-formed store returns with the handle set to NULL. The calls of
  free(), in order, are: for each item from head to tail its name (if any) and then
  the item, and last the store; afterwards none of these objects is live. Destroying
  again through the handle, which now holds NULL, changes nothing, as does destroying
  through any handle that holds NULL or through a NULL pointer to a handle.
\<close>

theorem free_list_store_releases_all:
  assumes "store_inv h s as"
  shows "\<exists>h'. free_list_store h (Some (Some s)) = Some (Inr (Some None, h'))
           \<and> freed h' = freed h @ release_order h as @ [s]
           \<and> (\<forall>a\<in>set as. items h' a = None)
           \<and> (\<forall>p\<in>set (name_ptrs h as). strs h' p = None)
           \<and> lists h' s = None
           \<and> free_list_store h' (Some None) = Some (Inr (Some None, h'))
           \<and> free_list_store h0 (Some None) = Some (Inr (Some None, h0))
           \<and> free_list_store h0 None = Some (Inr (None, h0))"
proof -
  from assms obtain st where st: "lists h s = Some st"
    and il: "item_list (items h) (head st) as"
    and dn: "distinct (name_ptrs h as)"
    and ln: "\<forall>p \<in> set (name_ptrs h as). strs h p \<noteq> None"
    by (rule store_invD)
  from free_items_wf [OF il dn ln]
  obtain h1 where r: "free_items h (head st) = Some (Inr h1)"
    and f: "freed h1 = freed h @ release_order h as"
    and fr: "lists h1 = lists h"
    and i1: "\<forall>x. items h1 x = (if x \<in> set as then None else items h x)"
    and s1: "\<forall>x. strs h1 x = (if x \<in> set (name_ptrs h as) then None else strs h x)"
    by (elim exE conjE, intro that)
  have loop: "(case head st of None \<Rightarrow> Some (Inr h) | Some _ \<Rightarrow> free_items h (head st)) =
                Some (Inr h1)"
    using r by (cases "head st") (simp_all add: free_items_None)
  let ?h' = "h1\<lparr>lists := (lists h1)(s := None), freed := freed h1 @ [s]\<rparr>"
  have run: "free_list_store h (Some (Some s)) = Some (Inr (Some None, ?h'))"
    by (simp add: free_list_store_def st loop free_list_def fr)
  have noop: "free_list_store g (Some None) = Some (Inr (Some None, g))"
    "free_list_store g None = Some (Inr (None, g))" for g
    by (simp_all add: free_list_store_def)
  show ?thesis
    by (rule exI [of _ ?h']) (simp add: run f i1 s1 noop)
qed

theorem free_list_store_releases_all_witness:
  "store_inv prog_heap 0 [1, 3]
   \<and> (\<exists>h'. free_list_store prog_heap (Some (Some 0)) = Some (Inr (Some None, h'))
         \<and> freed h' = [2, 1, 3, 0]
         \<and> items h' 1 = None \<and> items h' 3 = None \<and> strs h' 2 = None \<and> lists h' 0 = None
         \<and> free_list_store h' (Some None) = Some (Inr (Some None, h'))
         \<and> free_list_store empty_heap (Some None) = Some (Inr (Some None, empty_heap))
         \<and> free_list_store empty_heap None = Some (Inr (None, empty_heap)))"
proof -
  have a: "store_inv prog_heap 0 [1, 3]"
    by (simp add: store_inv_def prog_heap_def name_ptrs_def)
  have b: "freed prog_heap @ release_order prog_heap [1, 3] @ [0] = [2, 1, 3, 0]"
    by (simp add: release_order_def prog_heap_def)
  have c: "name_ptrs prog_heap [1, 3] = [2]"
    by (simp add: name_ptrs_def prog_heap_def)
  from free_list_store_releases_all [OF a, of empty_heap, unfolded b c] a show ?thesis
    by simp
qed

end
